theory Spec2Isabelle
  imports Main "HOL-Library.Word"
begin

section \<open>Data model of the checker (checker/checker.go)\<close>

text \<open>
  \<open>backend.ID\<close> is a fixed-width array used as a map key; the checker only compares
  IDs, so an ID is modelled by a natural number. Go's \<open>uint\<close> (the reference counter)
  is a 64-bit word: \<open>+\<close> wraps around as the Go increment does.
\<close>

type_synonym ID = nat

type_synonym uint = "64 word"

text \<open>
  Values of Go's \<open>error\<close> interface: the sentinel \<open>repository.ErrOldIndexFormat\<close>
  (compared with \<open>==\<close> in LoadIndex) and errors carrying a message
  (\<open>errors.New\<close>, \<open>fmt.Errorf\<close>, and failures of the backend).
\<close>

datatype error = ErrOldIndexFormat | errorString string

text \<open>A run-time panic of the Go program: here only the nil pointer dereference.\<close>

datatype panic = NilPointerDereference

text \<open>The tree shape the checker reads: \<open>tree.Nodes[i].Type\<close>, \<open>.Content\<close>, \<open>.Subtree\<close>.\<close>

record Node =
  Type :: string
  Content :: "ID list"
  Subtree :: "ID option"

record Tree =
  Nodes :: "Node list"

text \<open>The entries of an index, as \<open>Index.Each\<close> delivers them.\<close>

datatype BlobType = Data | TreeBlob

record PackedBlob =
  blob_ID :: ID
  PackID :: ID
  blob_Type :: BlobType
  Offset :: nat
  Length :: nat

type_synonym Index = "PackedBlob list"

text \<open>
  The \<open>Checker\<close> struct. The Go maps with \<open>struct{}\<close> values are sets of keys;
  \<open>blobRefs.M\<close> is a map from IDs to counters. The repository handle is passed to the
  operations that use it.
\<close>

record Checker =
  packs :: "ID set"
  blobs :: "ID set"
  blobRefs :: "ID \<rightharpoonup> uint"
  indexes :: "ID \<rightharpoonup> Index"
  orphanedPacks :: "ID list"
  masterIndex :: Index

definition New :: Checker where
  "New = \<lparr>packs = {}, blobs = {}, blobRefs = Map.empty, indexes = Map.empty,
          orphanedPacks = [], masterIndex = []\<rparr>"

text \<open>Reading a Go map at a missing key gives the zero value.\<close>

definition refcount :: "(ID \<rightharpoonup> uint) \<Rightarrow> ID \<Rightarrow> uint" where
  "refcount m k = (case m k of None \<Rightarrow> 0 | Some n \<Rightarrow> n)"

text \<open>\<open>M[id]++\<close>: the entry is created when missing; the addition wraps.\<close>

definition incr :: "(ID \<rightharpoonup> uint) \<Rightarrow> ID \<Rightarrow> (ID \<rightharpoonup> uint)" where
  "incr m k = m(k \<mapsto> refcount m k + 1)"

text \<open>
  A \<open>for k := range m\<close> loop over a Go map visits every key once, in an order the
  language leaves open: the order is a parameter of the model, and \<open>range_order S ks\<close>
  says that \<open>ks\<close> is such an order for the key set \<open>S\<close>.
\<close>

definition range_order :: "'a set \<Rightarrow> 'a list \<Rightarrow> bool" where
  "range_order S ks = (distinct ks \<and> set ks = S)"

section \<open>checkTree\<close>

text \<open>
  \<open>Error\<close> holds two pointers, \<open>TreeID *backend.ID\<close> and \<open>BlobID *backend.ID\<close>.
  checkTree fills them with the addresses of two of its own variables: \<open>&id\<close> (the
  parameter) and \<open>&blobID\<close> (the variable of the second \<open>for ... range\<close> loop, one
  variable for the whole loop in the Go this code was written for). A pointer is therefore
  the name of one of these two variables, \<open>nil\<close> is \<open>None\<close>, and the frame returned with
  the errors maps each variable to the value it holds when checkTree returns.
\<close>

datatype var = var_id | var_blobID

type_synonym frame = "var \<rightharpoonup> ID"

record Error =
  TreeID :: "var option"
  BlobID :: "var option"
  Err :: error

definition deref :: "frame \<Rightarrow> var option \<Rightarrow> ID option" where
  "deref fr p = (case p of None \<Rightarrow> None | Some v \<Rightarrow> fr v)"

text \<open>The decimal form \<open>%d\<close> of a node index.\<close>

fun itoa :: "nat \<Rightarrow> string" where
  "itoa n = (if n < 10 then [''0123456789'' ! n]
             else itoa (n div 10) @ [''0123456789'' ! (n mod 10)])"

declare itoa.simps [simp del]

definition dir_error :: "nat \<Rightarrow> Error" where
  "dir_error i = \<lparr>TreeID = Some var_id, BlobID = None,
     Err = errorString (''node '' @ itoa i @ '' is dir but has no subtree'')\<rparr>"

definition blob_error :: Error where
  "blob_error = \<lparr>TreeID = Some var_id, BlobID = Some var_blobID,
     Err = errorString ''not found in index''\<rparr>"

text \<open>
  The first loop of checkTree, over \<open>tree.Nodes\<close> from index \<open>i\<close> on: the content
  blobs of file nodes are collected, a dir node without subtree is recorded as an error.
\<close>

fun collect :: "nat \<Rightarrow> Node list \<Rightarrow> ID list \<times> Error list \<Rightarrow> ID list \<times> Error list" where
  "collect i [] acc = acc"
| "collect i (node # ns) (bs, errs) =
     (if Type node = ''file'' then collect (Suc i) ns (bs @ Content node, errs)
      else if Type node = ''dir'' then
        (if Subtree node = None then collect (Suc i) ns (bs, errs @ [dir_error i])
         else collect (Suc i) ns (bs, errs))
      else collect (Suc i) ns (bs, errs))"

text \<open>
  One iteration of the second loop: the loop variable takes the next blob ID, the
  counter of that blob is incremented under the mutex, and a blob that is not a key of
  \<open>c.blobs\<close> is recorded as an error holding \<open>&blobID\<close>.
\<close>

definition checkBlob :: "ID \<Rightarrow> Checker \<times> Error list \<times> frame \<Rightarrow> Checker \<times> Error list \<times> frame" where
  "checkBlob blobID s =
     (case s of (c, errs, fr) \<Rightarrow>
        let c' = c\<lparr>blobRefs := incr (blobRefs c) blobID\<rparr>
        in (c', if blobID \<in> blobs c' then errs else errs @ [blob_error],
            fr(var_blobID \<mapsto> blobID)))"

definition checkBlobs :: "ID list \<Rightarrow> Checker \<times> Error list \<times> frame \<Rightarrow> Checker \<times> Error list \<times> frame" where
  "checkBlobs bs s = foldl (\<lambda>s b. checkBlob b s) s bs"

text \<open>
  \<open>checkTree\<close>: the tree is a pointer, and \<open>tree.Nodes\<close> on \<open>nil\<close> panics. The result
  is the updated checker, the returned error list and the frame its pointers refer to.
\<close>

definition checkTree :: "Checker \<Rightarrow> ID \<Rightarrow> Tree option \<Rightarrow> panic + (Checker \<times> Error list \<times> frame)" where
  "checkTree c tid tree =
     (case tree of
        None \<Rightarrow> Inl NilPointerDereference
      | Some t \<Rightarrow>
          (case collect 0 (Nodes t) ([], []) of
             (bs, errs) \<Rightarrow> Inr (checkBlobs bs (c, errs, [var_id \<mapsto> tid]))))"

section \<open>UnusedBlobs\<close>

text \<open>
  \<open>UnusedBlobs\<close> ranges over the keys of \<open>c.blobs\<close> (in the order \<open>ks\<close>) and appends
  each key whose counter reads 0.
\<close>

definition UnusedBlobs :: "Checker \<Rightarrow> ID list \<Rightarrow> ID list" where
  "UnusedBlobs c ks = filter (\<lambda>k. refcount (blobRefs c) k = 0) ks"

definition OrphanedPacks :: "Checker \<Rightarrow> ID list" where
  "OrphanedPacks c = orphanedPacks c"

section \<open>Functions used to state the properties of checkTree\<close>

text \<open>The dir-without-subtree errors of a node list whose first node has index \<open>i\<close>.\<close>

fun dir_errors :: "nat \<Rightarrow> Node list \<Rightarrow> Error list" where
  "dir_errors i [] = []"
| "dir_errors i (node # ns) =
     (if Type node = ''dir'' \<and> Subtree node = None then dir_error i # dir_errors (Suc i) ns
      else dir_errors (Suc i) ns)"

text \<open>The content blobs of the file nodes, in node order.\<close>

definition file_blobs :: "Node list \<Rightarrow> ID list" where
  "file_blobs ns = concat (map Content (filter (\<lambda>n. Type n = ''file'') ns))"

section \<open>LoadIndex\<close>

text \<open>
  What LoadIndex takes from the packages \<open>repository\<close> and \<open>backend\<close>, whose code is
  not part of the checker: the operations are parameters of the model. \<open>'r\<close> is the
  state of the repository; loading an index file reads it, \<open>ConvertIndex\<close> rewrites it
  (a new index file is written, the old one deleted) and returns the new ID, \<open>SetIndex\<close>
  installs the master index. A Go result \<open>(value, err)\<close> is a sum: the callers read the
  value only when \<open>err\<close> is nil.
\<close>

record 'r repo_ops =
  LoadIndexWithDecoder :: "'r \<Rightarrow> string \<Rightarrow> error + Index"
  ConvertIndex :: "'r \<Rightarrow> ID \<Rightarrow> (error + ID) \<times> 'r"
  SetIndex :: "Index \<Rightarrow> 'r \<Rightarrow> 'r"
  String :: "ID \<Rightarrow> string"
  ParseID :: "string \<Rightarrow> error + ID"

text \<open>The values sent over \<open>indexCh\<close>.\<close>

record indexRes =
  res_Index :: Index
  res_ID :: string

text \<open>
  The calls a worker makes to the index codec are recorded in a log, so that their number
  and order can be stated.
\<close>

datatype call = Call_LoadIndexWithDecoder string | Call_ConvertIndex ID

text \<open>
  The state the workers act on: the repository, the log of codec calls, and the values
  sent over \<open>indexCh\<close> so far, in the order of sending.
\<close>

type_synonym 'r wstate = "'r \<times> call list \<times> indexRes list"

text \<open>
  The end of the worker closure (lines 76 to 85), once \<open>idx, err\<close> are settled: a
  non-nil \<open>err\<close> is returned; otherwise the \<open>select\<close> either sends the index with the
  string form of \<open>id\<close>, or, when \<open>cancelled\<close>, takes the \<open>done\<close> case and sends
  nothing; the worker returns nil in both cases.
\<close>

definition worker_finish ::
  "'r repo_ops \<Rightarrow> bool \<Rightarrow> ID \<Rightarrow> error + Index \<Rightarrow> 'r wstate \<Rightarrow> error option \<times> 'r wstate" where
  "worker_finish ops cancelled i res st =
     (case st of (r, log, sent) \<Rightarrow>
        (case res of
           Inl err \<Rightarrow> (Some err, st)
         | Inr idx \<Rightarrow>
             (None, (r, log,
                if cancelled then sent
                else sent @ [\<lparr>res_Index = idx, res_ID = String ops i\<rparr>]))))"

text \<open>
  The worker closure of LoadIndex (lines 62 to 86) for the index file \<open>i\<close>: it loads
  the index; when the outcome is the sentinel \<open>ErrOldIndexFormat\<close> it converts the
  file, and on success loads again under the ID the conversion returned.
\<close>

definition worker ::
  "'r repo_ops \<Rightarrow> bool \<Rightarrow> ID \<Rightarrow> 'r wstate \<Rightarrow> error option \<times> 'r wstate" where
  "worker ops cancelled i st =
     (case st of (r, log, sent) \<Rightarrow>
        let res = LoadIndexWithDecoder ops r (String ops i);
            log1 = log @ [Call_LoadIndexWithDecoder (String ops i)]
        in if res = Inl ErrOldIndexFormat then
             (case ConvertIndex ops r i of
                (Inl err, r1) \<Rightarrow> (Some err, (r1, log1 @ [Call_ConvertIndex i], sent))
              | (Inr i1, r1) \<Rightarrow>
                  worker_finish ops cancelled i1
                    (LoadIndexWithDecoder ops r1 (String ops i1))
                    (r1, log1 @ [Call_ConvertIndex i, Call_LoadIndexWithDecoder (String ops i1)],
                     sent))
           else worker_finish ops cancelled i res (r, log1, sent))"

text \<open>
  The body of the loop over the entries of a delivered index (lines 113 to 115).
\<close>

definition processBlob :: "PackedBlob \<Rightarrow> Checker \<Rightarrow> Checker" where
  "processBlob blob c =
     c\<lparr>packs := insert (PackID blob) (packs c),
       blobs := insert (blob_ID blob) (blobs c),
       blobRefs := (blobRefs c)(blob_ID blob \<mapsto> 0)\<rparr>"

text \<open>
  Modelled from the spec: \<open>Index.Merge\<close> of the package \<open>repository\<close>, whose code is
  not among the sources. The spec: the master index is "the merge of every loaded Index".
\<close>

definition Merge :: "Index \<Rightarrow> Index \<Rightarrow> Index" where
  "Merge master other = master @ other"

text \<open>
  The consumer loop of LoadIndex (lines 100 to 120) over the values received from
  \<open>indexCh\<close>. A received ID that does not parse makes LoadIndex return that error at
  once, with the checker as it is then. \<open>Each(done)\<close> delivers every entry of the index:
  \<open>done\<close> is closed only when LoadIndex returns.
\<close>

definition processIndex :: "ID \<Rightarrow> Index \<Rightarrow> Checker \<Rightarrow> Checker" where
  "processIndex i idx c =
     fold processBlob idx
       (c\<lparr>indexes := (indexes c)(i \<mapsto> idx), masterIndex := Merge (masterIndex c) idx\<rparr>)"

fun consume :: "(string \<Rightarrow> error + ID) \<Rightarrow> indexRes list \<Rightarrow> Checker \<Rightarrow> error option \<times> Checker" where
  "consume parse [] c = (None, c)"
| "consume parse (res # rest) c =
     (case parse (res_ID res) of
        Inl err \<Rightarrow> (Some err, c)
      | Inr i \<Rightarrow> consume parse rest (processIndex i (res_Index res) c))"

text \<open>
  \<open>LoadIndex\<close>. The driver \<open>repository.FilesInParallel\<close> is a parameter: from the
  worker (which it runs for the index files of the backend, telling each invocation
  whether its \<open>done\<close> case is taken) and the state before, it gives the error it returns
  (\<open>perr\<close>) and the state after. The result of LoadIndex is the returned error, the
  checker and the repository. The master index is installed only when the consumer loop
  ran to its end.
\<close>

type_synonym 'r driver =
  "(bool \<Rightarrow> ID \<Rightarrow> 'r wstate \<Rightarrow> error option \<times> 'r wstate) \<Rightarrow> 'r wstate \<Rightarrow> error option \<times> 'r wstate"

definition delivered :: "'r repo_ops \<Rightarrow> 'r driver \<Rightarrow> 'r \<Rightarrow> indexRes list" where
  "delivered ops drv r = snd (snd (snd (drv (worker ops) (r, [], []))))"

definition LoadIndex ::
  "'r repo_ops \<Rightarrow> 'r driver \<Rightarrow> 'r \<Rightarrow> Checker \<Rightarrow> error option \<times> Checker \<times> 'r" where
  "LoadIndex ops drv r c =
     (case drv (worker ops) (r, [], []) of
        (perr, (r1, log, sent)) \<Rightarrow>
          (case consume (ParseID ops) sent c of
             (Some err, c1) \<Rightarrow> (Some err, c1, r1)
           | (None, c1) \<Rightarrow> (perr, c1, SetIndex ops (masterIndex c1) r1)))"

text \<open>
  Modelled from the spec: \<open>repository.FilesInParallel\<close>, whose code is not among the
  sources, run by one executor. The spec: it "lists every object of the given kind on the
  backend and dispatches worker invocations"; "any worker returning a failure causes the
  driver to stop dispatching new work, drain in-flight workers, and return the first
  failure". \<open>ids\<close> is the listing, in the order of dispatch; no invocation is cancelled
  before a failure.
\<close>

fun FilesInParallel :: "ID list \<Rightarrow> (bool \<Rightarrow> ID \<Rightarrow> 's \<Rightarrow> error option \<times> 's) \<Rightarrow> 's \<Rightarrow> error option \<times> 's" where
  "FilesInParallel [] w s = (None, s)"
| "FilesInParallel (i # ids) w s =
     (case w False i s of
        (Some err, s1) \<Rightarrow> (Some err, s1)
      | (None, s1) \<Rightarrow> FilesInParallel ids w s1)"

section \<open>Sets of IDs named by the delivered indexes\<close>

definition index_blobs :: "indexRes list \<Rightarrow> ID set" where
  "index_blobs ds = (\<Union>res \<in> set ds. blob_ID ` set (res_Index res))"

definition index_packs :: "indexRes list \<Rightarrow> ID set" where
  "index_packs ds = (\<Union>res \<in> set ds. PackID ` set (res_Index res))"

section \<open>An example repository\<close>

text \<open>
  A small repository on which the operations can be run: an index file is missing, in
  the old format or in the new format; the string form of the ID \<open>n\<close> is \<open>n\<close> letters;
  converting the old-format file \<open>i\<close> writes its entries under the ID \<open>i + 1\<close> and
  deletes the file \<open>i\<close>.
\<close>

datatype index_file = Missing | OldFormat Index | NewFormat Index

record example_repo =
  index_files :: "string \<Rightarrow> index_file"
  installed :: Index

definition example_String :: "ID \<Rightarrow> string" where
  "example_String i = replicate i CHR ''a''"

definition example_ops :: "example_repo repo_ops" where
  "example_ops =
     \<lparr>LoadIndexWithDecoder = (\<lambda>r s.
         case index_files r s of
           Missing \<Rightarrow> Inl (errorString ''no such file'')
         | OldFormat idx \<Rightarrow> Inl ErrOldIndexFormat
         | NewFormat idx \<Rightarrow> Inr idx),
       ConvertIndex = (\<lambda>r i.
         case index_files r (example_String i) of
           OldFormat idx \<Rightarrow>
             (Inr (Suc i),
              r\<lparr>index_files := (index_files r)
                   (example_String i := Missing, example_String (Suc i) := NewFormat idx)\<rparr>)
         | _ \<Rightarrow> (Inl (errorString ''not an old index''), r)),
       SetIndex = (\<lambda>idx r. r\<lparr>installed := idx\<rparr>),
       String = example_String,
       ParseID = (\<lambda>s. Inr (length s))\<rparr>"

definition entry :: "ID \<Rightarrow> ID \<Rightarrow> PackedBlob" where
  "entry b p = \<lparr>blob_ID = b, PackID = p, blob_Type = Data, Offset = 0, Length = 1\<rparr>"

definition example_repo0 :: example_repo where
  "example_repo0 =
     \<lparr>index_files = (\<lambda>s. Missing)
        (''a'' := OldFormat [entry 5 50, entry 6 50], ''aaa'' := NewFormat [entry 6 50, entry 7 51]),
      installed = []\<rparr>"

text \<open>The checker and the repository after LoadIndex has run on the example.\<close>

definition example_checker1 :: Checker where
  "example_checker1 =
     \<lparr>packs = {50, 51}, blobs = {5, 6, 7},
      blobRefs = [5 \<mapsto> 0, 6 \<mapsto> 0, 7 \<mapsto> 0],
      indexes = [2 \<mapsto> [entry 5 50, entry 6 50], 3 \<mapsto> [entry 6 50, entry 7 51]],
      orphanedPacks = [],
      masterIndex = [entry 5 50, entry 6 50, entry 6 50, entry 7 51]\<rparr>"

definition example_repo1 :: example_repo where
  "example_repo1 =
     \<lparr>index_files = (\<lambda>s. Missing)
        (''aa'' := NewFormat [entry 5 50, entry 6 50], ''aaa'' := NewFormat [entry 6 50, entry 7 51]),
      installed = [entry 5 50, entry 6 50, entry 6 50, entry 7 51]\<rparr>"

section \<open>Structure: the pipeline of filterTrees, loadTreeWorker and checkTreeWorker\<close>

definition defaultParallelism :: nat where
  "defaultParallelism = 40"

record treeJob =
  job_ID :: ID
  job_error :: "error option"
  job_Tree :: "Tree option"

text \<open>
  \<open>TreeError\<close>, with the frame of the checkTree call that made the errors (the variables
  their pointers refer to).
\<close>

record TreeError =
  te_ID :: ID
  Errors :: "Error list"
  te_frame :: frame

text \<open>
  Modelled from the spec: \<open>Tree.Subtrees\<close> of the package \<open>restic\<close>, whose code is not
  among the sources. The spec: "\<open>tree.subtrees()\<close>: ordered sequence of subtree ContentIDs
  from all dir nodes".
\<close>

definition Subtrees :: "Tree \<Rightarrow> ID list" where
  "Subtrees t =
     concat (map (\<lambda>n. case Subtree n of None \<Rightarrow> [] | Some s \<Rightarrow> [s])
                 (filter (\<lambda>n. Type n = ''dir'') (Nodes t)))"

text \<open>
  \<open>restic.LoadTree(repo, id)\<close> is a parameter: the pair \<open>(tree, err)\<close> it returns for
  each tree ID, the tree being a pointer that may be nil.
\<close>

type_synonym load_tree = "ID \<Rightarrow> Tree option \<times> error option"

text \<open>
  A loadTreeWorker is at its \<open>select\<close> either with \<open>inCh = in\<close> and \<open>outCh = nil\<close>
  (\<open>LoaderRecv\<close>) or with \<open>outCh = out\<close>, \<open>inCh = nil\<close> and a job to send
  (\<open>LoaderSend\<close>), or it has returned.
\<close>

datatype loader = LoaderRecv | LoaderSend treeJob | LoaderReturned

text \<open>
  A checkTreeWorker is at its \<open>select\<close> with \<open>inCh = in\<close> (\<open>CheckerRecv\<close>) or with
  \<open>outCh = out\<close> and a \<open>TreeError\<close> to send (\<open>CheckerSend\<close>); or it has received a job
  and is before its critical section (\<open>CheckerLock\<close>); or it is inside checkTree, before
  an iteration of the second loop, with the tree ID, the blobs still to visit, the errors
  so far and the frame (\<open>CheckerBlobs\<close>); or it has returned.
\<close>

datatype checker =
    CheckerRecv
  | CheckerLock treeJob
  | CheckerBlobs ID "ID list" "Error list" frame
  | CheckerSend TreeError
  | CheckerReturned

text \<open>
  The state of the pipeline: the local variables of filterTrees (a channel variable is
  \<open>True\<close> when it holds its channel and \<open>False\<close> when it is nil), whether filterTrees
  has returned (its deferred function has then closed \<open>loaderChan\<close> and \<open>out\<close>), the
  workers of the two pools, the checker they share, whether \<open>done\<close> is closed, and
  whether the program has panicked. Three logs record what the checkers did: \<open>walked\<close>
  the tree IDs whose counter a worker incremented in its critical section (line 380),
  \<open>checked\<close> the tree IDs checkTree was called with (line 390), \<open>counted\<close> the content
  blobs whose counter checkTree incremented (line 521).
\<close>

record pipeline =
  backlog :: "ID list"
  loadCh :: bool
  nextTreeID :: ID
  inCh :: bool
  outCh :: bool
  job :: treeJob
  outstandingLoadTreeJobs :: int
  filter_returned :: bool
  loaders :: "nat \<Rightarrow> loader"
  checkers :: "nat \<Rightarrow> checker"
  checker_state :: Checker
  done_closed :: bool
  panicked :: "panic option"
  walked :: "ID list"
  checked :: "ID list"
  counted :: "ID list"

text \<open>
  The head of the loop of filterTrees (lines 426 to 434), which runs before every
  \<open>select\<close>: the next tree ID is taken from the backlog when no ID is on offer, and
  filterTrees returns when nothing is on offer and no load is outstanding.
\<close>

definition filter_head :: "pipeline \<Rightarrow> pipeline" where
  "filter_head p =
     (let p1 = (if \<not> loadCh p \<and> backlog p \<noteq> []
                then p\<lparr>loadCh := True, nextTreeID := hd (backlog p), backlog := tl (backlog p)\<rparr>
                else p)
      in if \<not> loadCh p1 \<and> \<not> outCh p1 \<and> outstandingLoadTreeJobs p1 = 0
         then p1\<lparr>filter_returned := True\<rparr>
         else p1)"

text \<open>
  The steps of the pipeline. The channels are unbuffered, so a send and its receive are
  one step of two parties; a critical section of the mutex is one step; what a party does
  on its own after a step, up to its next communication or critical section, belongs to
  the step. The channel \<open>treeErrChan\<close> has no receiver in Structure, so the send of a
  \<open>TreeError\<close> (line 398) is never a step; the channel \<open>in\<close> of filterTrees is never
  closed, so its branch for a closed input (lines 445 to 449) is never taken.
\<close>

datatype action =
    SendLoad nat
  | RecvJob nat
  | SendJob nat
  | Lock nat
  | Blob nat
  | Return nat
  | Cancel
  | FilterCancelled
  | LoaderCancelled nat
  | CheckerCancelled nat
  | LoaderClosed nat
  | CheckerClosed nat

text \<open>A checkTreeWorker can take the \<open>done\<close> case only where it is at its \<open>select\<close>.\<close>

fun at_select :: "checker \<Rightarrow> bool" where
  "at_select CheckerRecv = True"
| "at_select (CheckerSend e) = True"
| "at_select w = False"

text \<open>
  \<open>step lt a p\<close> is the state after the step \<open>a\<close>, or \<open>None\<close> when \<open>a\<close> cannot be
  taken in \<open>p\<close>. No step can be taken once the program has panicked.

  \<^item> \<open>SendLoad i\<close>: filterTrees sends \<open>nextTreeID\<close> (line 440) to loader \<open>i\<close> (line
    330), which loads the tree and holds the job (lines 336 to 340).
  \<^item> \<open>RecvJob i\<close>: loader \<open>i\<close> sends its job (line 342) to filterTrees (line 444),
    which appends \<open>j.Tree.Subtrees()\<close> to the backlog (line 455): a nil \<open>j.Tree\<close>
    panics there.
  \<^item> \<open>SendJob k\<close>: filterTrees sends its job (line 461) to checker \<open>k\<close> (line 369).
  \<^item> \<open>Lock k\<close>: checker \<open>k\<close> runs its critical section (lines 376 to 382); a job that
    is not already checked enters checkTree (line 390), which runs its first loop.
  \<^item> \<open>Blob k\<close>: checker \<open>k\<close> runs one iteration of the second loop of checkTree.
  \<^item> \<open>Return k\<close>: checkTree returns to checker \<open>k\<close> (lines 391 to 396).
  \<^item> \<open>Cancel\<close>: the caller closes \<open>done\<close>.
  \<^item> \<open>FilterCancelled\<close>, \<open>LoaderCancelled i\<close>, \<open>CheckerCancelled k\<close>: the party
    takes the \<open>done\<close> case of its \<open>select\<close> and returns.
  \<^item> \<open>LoaderClosed i\<close>, \<open>CheckerClosed k\<close>: the worker receives from its closed input
    channel and returns.
\<close>

fun step :: "load_tree \<Rightarrow> action \<Rightarrow> pipeline \<Rightarrow> pipeline option" where
  "step lt (SendLoad i) p =
     (if panicked p = None \<and> \<not> filter_returned p \<and> loadCh p
         \<and> i < defaultParallelism \<and> loaders p i = LoaderRecv
      then Some (filter_head
        (p\<lparr>loaders := (loaders p)
              (i := LoaderSend \<lparr>job_ID = nextTreeID p, job_error = snd (lt (nextTreeID p)),
                                job_Tree = fst (lt (nextTreeID p))\<rparr>),
           outstandingLoadTreeJobs := outstandingLoadTreeJobs p + 1,
           loadCh := False\<rparr>))
      else None)"
| "step lt (RecvJob i) p =
     (if panicked p = None \<and> \<not> filter_returned p \<and> inCh p \<and> i < defaultParallelism
      then (case loaders p i of
              LoaderSend j \<Rightarrow>
                (let p1 = p\<lparr>loaders := (loaders p)(i := LoaderRecv),
                            outstandingLoadTreeJobs := outstandingLoadTreeJobs p - 1\<rparr>
                 in case job_Tree j of
                      None \<Rightarrow> Some (p1\<lparr>panicked := Some NilPointerDereference\<rparr>)
                    | Some t \<Rightarrow>
                        Some (filter_head
                          (p1\<lparr>backlog := backlog p1 @ Subtrees t, job := j,
                              outCh := True, inCh := False\<rparr>)))
            | _ \<Rightarrow> None)
      else None)"
| "step lt (SendJob k) p =
     (if panicked p = None \<and> \<not> filter_returned p \<and> outCh p
         \<and> k < defaultParallelism \<and> checkers p k = CheckerRecv
      then Some (filter_head
        (p\<lparr>checkers := (checkers p)(k := CheckerLock (job p)),
           outCh := False, inCh := True\<rparr>))
      else None)"
| "step lt (Lock k) p =
     (if panicked p = None \<and> k < defaultParallelism
      then (case checkers p k of
              CheckerLock j \<Rightarrow>
                (let tid = job_ID j;
                     c = checker_state p;
                     alreadyChecked = (0 < refcount (blobRefs c) tid);
                     p1 = p\<lparr>checker_state := c\<lparr>blobRefs := incr (blobRefs c) tid\<rparr>,
                            walked := walked p @ [tid]\<rparr>
                 in if alreadyChecked
                    then Some (p1\<lparr>checkers := (checkers p1)(k := CheckerRecv)\<rparr>)
                    else (let p2 = p1\<lparr>checked := checked p1 @ [tid]\<rparr>
                          in case job_Tree j of
                               None \<Rightarrow> Some (p2\<lparr>panicked := Some NilPointerDereference\<rparr>)
                             | Some t \<Rightarrow>
                                 (case collect 0 (Nodes t) ([], []) of
                                    (bs, errs) \<Rightarrow>
                                      Some (p2\<lparr>checkers := (checkers p2)
                                        (k := CheckerBlobs tid bs errs [var_id \<mapsto> tid])\<rparr>))))
            | _ \<Rightarrow> None)
      else None)"
| "step lt (Blob k) p =
     (if panicked p = None \<and> k < defaultParallelism
      then (case checkers p k of
              CheckerBlobs tid (b # bs) errs fr \<Rightarrow>
                (case checkBlob b (checker_state p, errs, fr) of
                   (c1, errs1, fr1) \<Rightarrow>
                     Some (p\<lparr>checker_state := c1, counted := counted p @ [b],
                             checkers := (checkers p)(k := CheckerBlobs tid bs errs1 fr1)\<rparr>))
            | _ \<Rightarrow> None)
      else None)"
| "step lt (Return k) p =
     (if panicked p = None \<and> k < defaultParallelism
      then (case checkers p k of
              CheckerBlobs tid [] errs fr \<Rightarrow>
                Some (p\<lparr>checkers := (checkers p)
                  (k := if 0 < length errs
                        then CheckerSend \<lparr>te_ID = tid, Errors = errs, te_frame = fr\<rparr>
                        else CheckerRecv)\<rparr>)
            | _ \<Rightarrow> None)
      else None)"
| "step lt Cancel p =
     (if panicked p = None \<and> \<not> done_closed p then Some (p\<lparr>done_closed := True\<rparr>) else None)"
| "step lt FilterCancelled p =
     (if panicked p = None \<and> done_closed p \<and> \<not> filter_returned p
      then Some (p\<lparr>filter_returned := True\<rparr>) else None)"
| "step lt (LoaderCancelled i) p =
     (if panicked p = None \<and> done_closed p \<and> i < defaultParallelism
         \<and> loaders p i \<noteq> LoaderReturned
      then Some (p\<lparr>loaders := (loaders p)(i := LoaderReturned)\<rparr>) else None)"
| "step lt (CheckerCancelled k) p =
     (if panicked p = None \<and> done_closed p \<and> k < defaultParallelism
         \<and> at_select (checkers p k)
      then Some (p\<lparr>checkers := (checkers p)(k := CheckerReturned)\<rparr>) else None)"
| "step lt (LoaderClosed i) p =
     (if panicked p = None \<and> filter_returned p \<and> i < defaultParallelism
         \<and> loaders p i = LoaderRecv
      then Some (p\<lparr>loaders := (loaders p)(i := LoaderReturned)\<rparr>) else None)"
| "step lt (CheckerClosed k) p =
     (if panicked p = None \<and> filter_returned p \<and> k < defaultParallelism
         \<and> checkers p k = CheckerRecv
      then Some (p\<lparr>checkers := (checkers p)(k := CheckerReturned)\<rparr>) else None)"

text \<open>A schedule is a list of steps; \<open>run\<close> takes them in order.\<close>

fun run :: "load_tree \<Rightarrow> action list \<Rightarrow> pipeline \<Rightarrow> pipeline option" where
  "run lt [] p = Some p"
| "run lt (a # as) p = (case step lt a p of None \<Rightarrow> None | Some p1 \<Rightarrow> run lt as p1)"

text \<open>
  The pipeline as Structure starts it (lines 485 to 497) on the checker \<open>c\<close>, with the
  tree IDs of the snapshots as the backlog: all workers are at their \<open>select\<close>, and
  filterTrees is before its first \<open>select\<close>.
\<close>

definition Structure_init :: "Checker \<Rightarrow> ID list \<Rightarrow> pipeline" where
  "Structure_init c trees =
     filter_head
       \<lparr>backlog = trees, loadCh = False, nextTreeID = 0, inCh = True, outCh = False,
        job = \<lparr>job_ID = 0, job_error = None, job_Tree = None\<rparr>,
        outstandingLoadTreeJobs = 0, filter_returned = False,
        loaders = (\<lambda>i. LoaderRecv), checkers = (\<lambda>k. CheckerRecv),
        checker_state = c, done_closed = False, panicked = None,
        walked = [], checked = [], counted = []\<rparr>"

text \<open>
  Structure returns (line 499) when filterTrees has returned and \<open>wg.Wait()\<close> is over:
  every worker has returned.
\<close>

definition Structure_returned :: "pipeline \<Rightarrow> bool" where
  "Structure_returned p =
     (panicked p = None \<and> filter_returned p
      \<and> (\<forall>i < defaultParallelism. loaders p i = LoaderReturned)
      \<and> (\<forall>k < defaultParallelism. checkers p k = CheckerReturned))"

section \<open>Packs and packIDTester\<close>

record PackError =
  pk_ID :: ID
  Orphaned :: bool
  pk_Err :: error

text \<open>
  \<open>repo.Backend().Test(backend.Data, id.String())\<close> is a parameter: the pair
  \<open>(ok, err)\<close> it returns for each pack ID.
\<close>

type_synonym backend_test = "ID \<Rightarrow> bool \<times> error option"

text \<open>
  The probe of one pack ID in packIDTester (lines 147 to 154): the error the worker has
  to send, if any. A \<open>PackError\<close> made without the field \<open>Orphaned\<close> has it false.
\<close>

definition testPack :: "backend_test \<Rightarrow> ID \<Rightarrow> PackError option" where
  "testPack test i =
     (case test i of
        (ok, Some err) \<Rightarrow> Some \<lparr>pk_ID = i, Orphaned = False, pk_Err = err\<rparr>
      | (ok, None) \<Rightarrow>
          if \<not> ok
          then Some \<lparr>pk_ID = i, Orphaned = False, pk_Err = errorString ''does not exist''\<rparr>
          else None)"

definition orphan_error :: "ID \<Rightarrow> PackError" where
  "orphan_error i =
     \<lparr>pk_ID = i, Orphaned = True, pk_Err = errorString ''not referenced in any index''\<rparr>"

text \<open>
  A packIDTester is at the head of its loop, receiving from \<open>inChan\<close> (\<open>TesterRecv\<close>),
  or at its \<open>select\<close> with an error to send (\<open>TesterSend\<close>), or it has returned.
\<close>

datatype tester = TesterRecv | TesterSend PackError | TesterReturned

text \<open>
  Where Packs itself is: in its first loop, sending the keys of \<open>c.packs\<close> (\<open>Feeding\<close>);
  in \<open>workerWG.Wait()\<close>, after it has closed \<open>IDChan\<close> (\<open>Joining\<close>); at the head of its
  second loop, receiving from the listing (\<open>Listing\<close>); at the \<open>select\<close> of the second
  loop with an error to send (\<open>Sending\<close>); or returned, with \<open>errChan\<close> closed.
\<close>

datatype stage = Feeding | Joining | Listing | Sending PackError | Returned

text \<open>
  The state of a run of Packs: the keys of \<open>c.packs\<close> still to send, in the order of the
  \<open>range\<close> loop; \<open>seenPacks\<close>; the testers; the stage of Packs; what the listing
  \<open>c.repo.List(backend.Data, done)\<close> has still to deliver; the checker; the errors the
  caller has received from \<open>errChan\<close>, in the order of receipt (\<open>sink\<close>); whether
  \<open>done\<close> is closed; and a log of the pack IDs the testers have probed (line 147).
\<close>

record packs_state =
  feed :: "ID list"
  seenPacks :: "ID set"
  testers :: "nat \<Rightarrow> tester"
  main :: stage
  listing :: "ID list"
  pk_checker :: Checker
  sink :: "PackError list"
  pk_done :: bool
  probed :: "ID list"

text \<open>
  The steps of a run of Packs.

  \<^item> \<open>Feed k\<close>: Packs records the next key in \<open>seenPacks\<close> and sends it (lines 189
    and 190) to tester \<open>k\<close> (line 146), which probes it (lines 147 to 154).
  \<^item> \<open>CloseIDChan\<close>: the first loop is over; Packs closes \<open>IDChan\<close> and waits for the
    testers.
  \<^item> \<open>TesterEmit k\<close>: the caller receives the error of tester \<open>k\<close> (line 161).
  \<^item> \<open>TesterCancelled k\<close>: tester \<open>k\<close> takes the \<open>done\<close> case (line 159) and returns.
  \<^item> \<open>TesterClosed k\<close>: tester \<open>k\<close> finds \<open>inChan\<close> closed and returns.
  \<^item> \<open>Join\<close>: all testers have returned and \<open>workerWG.Wait()\<close> is over.
  \<^item> \<open>ListNext\<close>: the listing delivers the next pack ID (line 198); an ID that is not in
    \<open>seenPacks\<close> is appended to \<open>c.orphanedPacks\<close> (line 201).
  \<^item> \<open>ListEnd\<close>: the listing is closed, having delivered everything or because \<open>done\<close>
    is closed; Packs returns.
  \<^item> \<open>MainEmit\<close>: the caller receives the error of Packs (line 205).
  \<^item> \<open>MainCancelled\<close>: Packs takes the \<open>done\<close> case (line 203) and returns.
  \<^item> \<open>CancelPacks\<close>: the caller closes \<open>done\<close>.
\<close>

datatype packs_action =
    Feed nat
  | CloseIDChan
  | TesterEmit nat
  | TesterCancelled nat
  | TesterClosed nat
  | Join
  | ListNext
  | ListEnd
  | MainEmit
  | MainCancelled
  | CancelPacks

fun packs_step :: "backend_test \<Rightarrow> packs_action \<Rightarrow> packs_state \<Rightarrow> packs_state option" where
  "packs_step test (Feed k) s =
     (case feed s of
        i # rest \<Rightarrow>
          if main s = Feeding \<and> k < defaultParallelism \<and> testers s k = TesterRecv
          then Some (s\<lparr>feed := rest, seenPacks := insert i (seenPacks s),
                       probed := probed s @ [i],
                       testers := (testers s)
                         (k := case testPack test i of
                                 None \<Rightarrow> TesterRecv
                               | Some err \<Rightarrow> TesterSend err)\<rparr>)
          else None
      | [] \<Rightarrow> None)"
| "packs_step test CloseIDChan s =
     (if main s = Feeding \<and> feed s = [] then Some (s\<lparr>main := Joining\<rparr>) else None)"
| "packs_step test (TesterEmit k) s =
     (if k < defaultParallelism
      then (case testers s k of
              TesterSend err \<Rightarrow>
                Some (s\<lparr>sink := sink s @ [err], testers := (testers s)(k := TesterRecv)\<rparr>)
            | _ \<Rightarrow> None)
      else None)"
| "packs_step test (TesterCancelled k) s =
     (if k < defaultParallelism \<and> pk_done s
      then (case testers s k of
              TesterSend err \<Rightarrow> Some (s\<lparr>testers := (testers s)(k := TesterReturned)\<rparr>)
            | _ \<Rightarrow> None)
      else None)"
| "packs_step test (TesterClosed k) s =
     (if k < defaultParallelism \<and> main s \<noteq> Feeding \<and> testers s k = TesterRecv
      then Some (s\<lparr>testers := (testers s)(k := TesterReturned)\<rparr>)
      else None)"
| "packs_step test Join s =
     (if main s = Joining \<and> (\<forall>k < defaultParallelism. testers s k = TesterReturned)
      then Some (s\<lparr>main := Listing\<rparr>)
      else None)"
| "packs_step test ListNext s =
     (case listing s of
        i # rest \<Rightarrow>
          if main s = Listing
          then (if i \<in> seenPacks s
                then Some (s\<lparr>listing := rest\<rparr>)
                else Some (s\<lparr>listing := rest,
                             pk_checker := (pk_checker s)
                               \<lparr>orphanedPacks := orphanedPacks (pk_checker s) @ [i]\<rparr>,
                             main := Sending (orphan_error i)\<rparr>))
          else None
      | [] \<Rightarrow> None)"
| "packs_step test ListEnd s =
     (if main s = Listing \<and> (listing s = [] \<or> pk_done s)
      then Some (s\<lparr>main := Returned\<rparr>)
      else None)"
| "packs_step test MainEmit s =
     (case main s of
        Sending err \<Rightarrow> Some (s\<lparr>sink := sink s @ [err], main := Listing\<rparr>)
      | _ \<Rightarrow> None)"
| "packs_step test MainCancelled s =
     (case main s of
        Sending err \<Rightarrow> if pk_done s then Some (s\<lparr>main := Returned\<rparr>) else None
      | _ \<Rightarrow> None)"
| "packs_step test CancelPacks s =
     (if \<not> pk_done s then Some (s\<lparr>pk_done := True\<rparr>) else None)"

fun packs_run :: "backend_test \<Rightarrow> packs_action list \<Rightarrow> packs_state \<Rightarrow> packs_state option" where
  "packs_run test [] s = Some s"
| "packs_run test (a # as) s =
     (case packs_step test a s of None \<Rightarrow> None | Some s1 \<Rightarrow> packs_run test as s1)"

text \<open>
  Packs as it starts on the checker \<open>c\<close>: \<open>ks\<close> is the order in which the \<open>range\<close>
  loop visits the keys of \<open>c.packs\<close>, \<open>ls\<close> is the Data listing of the backend.
\<close>

definition Packs_init :: "Checker \<Rightarrow> ID list \<Rightarrow> ID list \<Rightarrow> packs_state" where
  "Packs_init c ks ls =
     \<lparr>feed = ks, seenPacks = {}, testers = (\<lambda>k. TesterRecv), main = Feeding,
      listing = ls, pk_checker = c, sink = [], pk_done = False, probed = []\<rparr>"

section \<open>Functions used to state the properties of the pipeline\<close>

text \<open>
  The subtree IDs of the tree that LoadTree gives for the ID \<open>u\<close>, and how often the ID
  \<open>t\<close> is among them.
\<close>

definition subtrees_of :: "load_tree \<Rightarrow> ID \<Rightarrow> ID list" where
  "subtrees_of lt u = (case fst (lt u) of None \<Rightarrow> [] | Some tr \<Rightarrow> Subtrees tr)"

definition children :: "load_tree \<Rightarrow> ID \<Rightarrow> ID \<Rightarrow> nat" where
  "children lt t u = count_list (subtrees_of lt u) t"

text \<open>A job as loadTreeWorker makes it: its tree is the one LoadTree gives for its ID.\<close>

definition job_ok :: "load_tree \<Rightarrow> treeJob \<Rightarrow> bool" where
  "job_ok lt j = (job_Tree j = fst (lt (job_ID j)))"

text \<open>
  The weight \<open>f\<close> of the tree IDs that are on their way to filterTrees (in the backlog, on
  offer to the loaders, or in a job held by a loader): \<open>ahead\<close>; and of the IDs of the jobs
  filterTrees has received (the job on offer to the checkers, the jobs held by checkers
  before their critical section, and the IDs in the log \<open>walked\<close>): \<open>behind\<close>.
\<close>

definition loader_hold :: "(ID \<Rightarrow> nat) \<Rightarrow> loader \<Rightarrow> nat" where
  "loader_hold f w = (case w of LoaderSend j \<Rightarrow> f (job_ID j) | _ \<Rightarrow> 0)"

definition checker_hold :: "(ID \<Rightarrow> nat) \<Rightarrow> checker \<Rightarrow> nat" where
  "checker_hold f w = (case w of CheckerLock j \<Rightarrow> f (job_ID j) | _ \<Rightarrow> 0)"

definition ahead :: "(ID \<Rightarrow> nat) \<Rightarrow> pipeline \<Rightarrow> nat" where
  "ahead f p =
     sum_list (map f (backlog p)) + (if loadCh p then f (nextTreeID p) else 0)
       + (\<Sum>i < defaultParallelism. loader_hold f (loaders p i))"

definition behind :: "(ID \<Rightarrow> nat) \<Rightarrow> pipeline \<Rightarrow> nat" where
  "behind f p =
     (if outCh p then f (job_ID (job p)) else 0)
       + (\<Sum>k < defaultParallelism. checker_hold f (checkers p k))
       + sum_list (map f (walked p))"

text \<open>
  What holds of the jobs in every state of a run: filterTrees receives only while it has
  no job on offer, and every job in the pipeline is as a loader made it.
\<close>

definition jobs_ok :: "load_tree \<Rightarrow> pipeline \<Rightarrow> bool" where
  "jobs_ok lt p =
     ((inCh p \<longleftrightarrow> \<not> outCh p)
      \<and> (outCh p \<longrightarrow> job_ok lt (job p))
      \<and> (\<forall>i j. loaders p i = LoaderSend j \<longrightarrow> job_ok lt j)
      \<and> (\<forall>k j. checkers p k = CheckerLock j \<longrightarrow> job_ok lt j)
      \<and> (filter_returned p \<and> \<not> done_closed p \<longrightarrow>
            backlog p = [] \<and> \<not> loadCh p \<and> \<not> outCh p))"

text \<open>
  In a run that is not cancelled, \<open>outstandingLoadTreeJobs\<close> is the number of loaders
  that hold a job, and it is 0 once filterTrees has returned.
\<close>

definition loads_ok :: "pipeline \<Rightarrow> bool" where
  "loads_ok p =
     (\<not> done_closed p \<longrightarrow>
        outstandingLoadTreeJobs p
          = int (\<Sum>i < defaultParallelism. loader_hold (\<lambda>u. 1) (loaders p i))
        \<and> (filter_returned p \<longrightarrow> outstandingLoadTreeJobs p = 0))"

text \<open>
  The walk is over: filterTrees has returned by itself (the run was not cancelled and has
  not panicked), and every job it passed on has been through the critical section of its
  checker. Nothing is said of the checkers that are inside checkTree or hold a
  \<open>TreeError\<close>, nor of \<open>wg.Wait()\<close>.
\<close>

definition drained :: "pipeline \<Rightarrow> bool" where
  "drained p =
     (filter_returned p \<and> \<not> done_closed p \<and> panicked p = None
      \<and> (\<forall>k < defaultParallelism. checker_hold (\<lambda>u. 1) (checkers p k) = 0))"

text \<open>The counter of the ID \<open>t\<close> in the checker of the pipeline, as a number.\<close>

definition counter :: "ID \<Rightarrow> pipeline \<Rightarrow> nat" where
  "counter t p = unat (refcount (blobRefs (checker_state p)) t)"

section \<open>Examples of walks: three snapshots sharing a subtree\<close>

text \<open>
  The trees 1, 2 and 3 are the roots of three snapshots; each has one dir node whose
  subtree is the tree 9, which has one file node with the content blobs 20 and 21. Every
  other tree ID fails to load. The blobs 1, 2, 3, 9 and 20 are indexed, with counters 0,
  as after LoadIndex; the blob 21 is in no index, so checkTree reports an error for the
  tree 9.
\<close>

definition example_lt :: load_tree where
  "example_lt u =
     (if u = 1 \<or> u = 2 \<or> u = 3
      then (Some \<lparr>Nodes = [\<lparr>Type = ''dir'', Content = [], Subtree = Some 9\<rparr>]\<rparr>, None)
      else if u = 9
      then (Some \<lparr>Nodes = [\<lparr>Type = ''file'', Content = [20, 21], Subtree = None\<rparr>]\<rparr>, None)
      else (None, Some (errorString ''not found'')))"

definition example_walk_checker :: Checker where
  "example_walk_checker =
     New\<lparr>blobs := {1, 2, 3, 9, 20},
         blobRefs := [1 \<mapsto> 0, 2 \<mapsto> 0, 3 \<mapsto> 0, 9 \<mapsto> 0, 20 \<mapsto> 0]\<rparr>"

text \<open>
  A schedule in which loader 0 loads one tree at a time: the three roots, checked by
  checker 0; then the tree 9 three times. Checker 0 checks it the first time and is left
  holding its \<open>TreeError\<close>, which nobody receives; checker 1 takes the second and the
  third job, which are already checked.
\<close>

definition example_walk :: "action list" where
  "example_walk =
     [SendLoad 0, RecvJob 0, SendJob 0, Lock 0, Return 0,
      SendLoad 0, RecvJob 0, SendJob 0, Lock 0, Return 0,
      SendLoad 0, RecvJob 0, SendJob 0, Lock 0, Return 0,
      SendLoad 0, RecvJob 0, SendJob 0, Lock 0, Blob 0, Blob 0, Return 0,
      SendLoad 0, RecvJob 0, SendJob 1, Lock 1,
      SendLoad 0, RecvJob 0, SendJob 1, Lock 1]"

text \<open>
  A repository without faults in which the shared tree has a subtree of its own: the
  roots 1, 2 and 3 each name the tree 9, the tree 9 names the tree 10, and the tree 10 has
  one file node with the content blob 20. The tree 10 is named once, by the tree 9 only.
\<close>

definition nested_lt :: load_tree where
  "nested_lt u =
     (if u = 1 \<or> u = 2 \<or> u = 3
      then (Some \<lparr>Nodes = [\<lparr>Type = ''dir'', Content = [], Subtree = Some 9\<rparr>]\<rparr>, None)
      else if u = 9
      then (Some \<lparr>Nodes = [\<lparr>Type = ''dir'', Content = [], Subtree = Some 10\<rparr>]\<rparr>, None)
      else if u = 10
      then (Some \<lparr>Nodes = [\<lparr>Type = ''file'', Content = [20], Subtree = None\<rparr>]\<rparr>, None)
      else (None, Some (errorString ''not found'')))"

definition nested_checker :: Checker where
  "nested_checker =
     New\<lparr>blobs := {1, 2, 3, 9, 10, 20},
         blobRefs := [1 \<mapsto> 0, 2 \<mapsto> 0, 3 \<mapsto> 0, 9 \<mapsto> 0, 10 \<mapsto> 0, 20 \<mapsto> 0]\<rparr>"

text \<open>
  A schedule in which loader 0 and checker 0 do all the work, one tree at a time: the
  three roots; the tree 9 three times (filterTrees appends its subtree 10 to the backlog
  each time); the tree 10 three times. \<open>close_all\<close> then lets every worker read its closed
  input channel.
\<close>

definition nested_walk :: "action list" where
  "nested_walk =
     [SendLoad 0, RecvJob 0, SendJob 0, Lock 0, Return 0,
      SendLoad 0, RecvJob 0, SendJob 0, Lock 0, Return 0,
      SendLoad 0, RecvJob 0, SendJob 0, Lock 0, Return 0,
      SendLoad 0, RecvJob 0, SendJob 0, Lock 0, Return 0,
      SendLoad 0, RecvJob 0, SendJob 0, Lock 0,
      SendLoad 0, RecvJob 0, SendJob 0, Lock 0,
      SendLoad 0, RecvJob 0, SendJob 0, Lock 0, Blob 0, Return 0,
      SendLoad 0, RecvJob 0, SendJob 0, Lock 0,
      SendLoad 0, RecvJob 0, SendJob 0, Lock 0]"

definition close_all :: "action list" where
  "close_all =
     map LoaderClosed [0..<defaultParallelism] @ map CheckerClosed [0..<defaultParallelism]"

text \<open>A repository in which no tree can be loaded: LoadTree returns a nil tree and an error.\<close>

definition failing_lt :: load_tree where
  "failing_lt u = (None, Some (errorString ''not found''))"

section \<open>Functions used to state the properties of Packs\<close>

text \<open>
  How many errors for the pack \<open>p\<close> a tester holds, and how many of them the caller has
  received from the testers (these have \<open>Orphaned\<close> false).
\<close>

definition tester_hold :: "ID \<Rightarrow> tester \<Rightarrow> nat" where
  "tester_hold p w = (case w of TesterSend e \<Rightarrow> if pk_ID e = p then 1 else 0 | _ \<Rightarrow> 0)"

definition tested :: "ID \<Rightarrow> PackError list \<Rightarrow> PackError list" where
  "tested p es = filter (\<lambda>e. pk_ID e = p \<and> \<not> Orphaned e) es"

text \<open>The error Packs has on offer at its \<open>select\<close>, if it is there.\<close>

definition on_offer :: "stage \<Rightarrow> PackError list" where
  "on_offer m = (case m of Sending e \<Rightarrow> [e] | _ \<Rightarrow> [])"

text \<open>
  What holds in every state of a run of Packs that started on the checker \<open>c\<close> with the
  order \<open>ks\<close> of the keys of \<open>c.packs\<close> and the listing \<open>ls\<close>.
\<close>

definition feed_inv :: "ID list \<Rightarrow> packs_state \<Rightarrow> bool" where
  "feed_inv ks s =
     (ks = probed s @ feed s \<and> seenPacks s = set (probed s)
      \<and> (main s \<noteq> Feeding \<longrightarrow> feed s = [])
      \<and> (\<forall>e. main s = Sending e \<longrightarrow> Orphaned e)
      \<and> (main s \<noteq> Feeding \<and> main s \<noteq> Joining \<longrightarrow>
            (\<forall>k < defaultParallelism. testers s k = TesterReturned)))"

definition orphan_inv :: "Checker \<Rightarrow> ID list \<Rightarrow> ID list \<Rightarrow> packs_state \<Rightarrow> bool" where
  "orphan_inv c ks ls s =
     (\<exists>pre. ls = pre @ listing s
        \<and> pk_checker s =
            c\<lparr>orphanedPacks := orphanedPacks c @ filter (\<lambda>i. i \<notin> set ks) pre\<rparr>
        \<and> (main s = Feeding \<or> main s = Joining \<longrightarrow> pre = [])
        \<and> (\<not> pk_done s \<longrightarrow>
              filter Orphaned (sink s) @ on_offer (main s) =
                map orphan_error (filter (\<lambda>i. i \<notin> set ks) pre))
        \<and> (\<not> pk_done s \<and> main s = Returned \<longrightarrow> listing s = []))"

definition tester_inv :: "backend_test \<Rightarrow> packs_state \<Rightarrow> bool" where
  "tester_inv test s =
     ((\<forall>e \<in> set (sink s). \<not> Orphaned e \<longrightarrow> testPack test (pk_ID e) = Some e)
      \<and> (\<forall>k e. testers s k = TesterSend e \<longrightarrow> testPack test (pk_ID e) = Some e)
      \<and> (\<not> pk_done s \<longrightarrow>
            (\<forall>p. length (tested p (sink s))
                   + (\<Sum>k < defaultParallelism. tester_hold p (testers s k))
                 = (if p \<in> set (probed s) \<and> testPack test p \<noteq> None then 1 else 0))))"

section \<open>An example run of Packs\<close>

text \<open>
  The indexes name the packs 50 and 51; the backend lists the packs 50, 60 and 51; the
  probe finds pack 50 and does not find pack 51. In the schedule, tester 0 probes pack 51
  and tester 1 probes pack 50.
\<close>

definition example_packs_checker :: Checker where
  "example_packs_checker = New\<lparr>packs := {50, 51}\<rparr>"

definition example_test :: backend_test where
  "example_test i = (i \<noteq> 51, None)"

definition example_packs_schedule :: "packs_action list" where
  "example_packs_schedule =
     [Feed 0, Feed 1, CloseIDChan, TesterEmit 0]
       @ map TesterClosed [0..<defaultParallelism]
       @ [Join, ListNext, ListNext, MainEmit, ListNext, ListEnd]"

definition example_packs_final :: packs_state where
  "example_packs_final =
     \<lparr>feed = [], seenPacks = {50, 51},
      testers = (\<lambda>k. if k < defaultParallelism then TesterReturned else TesterRecv),
      main = Returned, listing = [],
      pk_checker = example_packs_checker\<lparr>orphanedPacks := [60]\<rparr>,
      sink = [\<lparr>pk_ID = 51, Orphaned = False, pk_Err = errorString ''does not exist''\<rparr>,
              orphan_error 60],
      pk_done = False, probed = [51, 50]\<rparr>"

section \<open>Properties of checkTree\<close>

lemma collect_eq:
  "collect i ns (bs, errs) = (bs @ file_blobs ns, errs @ dir_errors i ns)"
  by (induction ns arbitrary: i bs errs) (auto simp: file_blobs_def)

lemma checkBlobs_Nil [simp]: "checkBlobs [] s = s"
  by (simp add: checkBlobs_def)

lemma checkBlobs_Cons [simp]: "checkBlobs (b # bs) s = checkBlobs bs (checkBlob b s)"
  by (simp add: checkBlobs_def)

lemma checkBlobs_append: "checkBlobs (as @ bs) s = checkBlobs bs (checkBlobs as s)"
  by (simp add: checkBlobs_def)

lemma checkBlob_blobs [simp]: "blobs (fst (checkBlob b s)) = blobs (fst s)"
  by (cases s) (simp add: checkBlob_def Let_def)

lemma checkBlobs_blobs [simp]: "blobs (fst (checkBlobs bs s)) = blobs (fst s)"
  by (induction bs arbitrary: s) simp_all

lemma checkBlobs_errs:
  "fst (snd (checkBlobs bs (c, errs, fr))) =
     errs @ map (\<lambda>_. blob_error) (filter (\<lambda>b. b \<notin> blobs c) bs)"
proof (induction bs arbitrary: c errs fr)
  case Nil
  show ?case by simp
next
  case (Cons b bs)
  show ?case
    by (simp add: checkBlob_def Let_def Cons.IH)
qed

lemma checkBlobs_frame:
  "snd (snd (checkBlobs bs (c, errs, fr))) =
     (if bs = [] then fr else fr(var_blobID \<mapsto> last bs))"
proof (induction bs arbitrary: c errs fr)
  case Nil
  show ?case by simp
next
  case (Cons b bs)
  show ?case
    by (auto simp: checkBlob_def Let_def Cons.IH)
qed

text \<open>
  What checkTree returns on a tree that is not nil: the dir errors in node order, then
  one error per occurrence of a content blob that is not indexed; every blob error holds
  the same pointer \<open>&blobID\<close>, and the variable it points to holds the last content
  blob of the tree.
\<close>

lemma checkTree_returns:
  assumes "checkTree c tid (Some t) = Inr (c', errs, fr)"
  shows "errs = dir_errors 0 (Nodes t) @
           map (\<lambda>_. blob_error) (filter (\<lambda>b. b \<notin> blobs c) (file_blobs (Nodes t)))"
    and "fr var_id = Some tid"
    and "fr var_blobID =
           (if file_blobs (Nodes t) = [] then None else Some (last (file_blobs (Nodes t))))"
    and "blobs c' = blobs c"
proof -
  let ?bs = "file_blobs (Nodes t)"
  let ?s = "checkBlobs ?bs (c, dir_errors 0 (Nodes t), [var_id \<mapsto> tid])"
  have s: "?s = (c', errs, fr)"
    using assms by (simp add: checkTree_def collect_eq)
  have "fst (snd ?s) = errs" "snd (snd ?s) = fr" "fst ?s = c'"
    by (simp_all add: s)
  then show "errs = dir_errors 0 (Nodes t) @
           map (\<lambda>_. blob_error) (filter (\<lambda>b. b \<notin> blobs c) ?bs)"
    and "fr var_id = Some tid"
    and "fr var_blobID = (if ?bs = [] then None else Some (last ?bs))"
    and "blobs c' = blobs c"
    using checkBlobs_errs [of ?bs c "dir_errors 0 (Nodes t)" "[var_id \<mapsto> tid]"]
      checkBlobs_frame [of ?bs c "dir_errors 0 (Nodes t)" "[var_id \<mapsto> tid]"]
      checkBlobs_blobs [of ?bs "(c, dir_errors 0 (Nodes t), [var_id \<mapsto> tid])"]
    by auto
qed


lemma refcount_incr: "refcount (incr m k) j = (if j = k then refcount m k + 1 else refcount m j)"
  by (simp add: incr_def refcount_def)

lemma dom_incr: "dom (incr m k) = insert k (dom m)"
  by (simp add: incr_def)

lemma checkBlobs_refcount:
  "refcount (blobRefs (fst (checkBlobs bs (c, errs, fr)))) b =
     refcount (blobRefs c) b + of_nat (count_list bs b)"
proof (induction bs arbitrary: c errs fr)
  case Nil
  show ?case by simp
next
  case (Cons a bs)
  show ?case
    by (simp add: checkBlob_def Let_def Cons.IH refcount_incr)
qed

lemma checkBlobs_dom:
  "dom (blobRefs (fst (checkBlobs bs (c, errs, fr)))) = dom (blobRefs c) \<union> set bs"
proof (induction bs arbitrary: c errs fr)
  case Nil
  show ?case by simp
next
  case (Cons a bs)
  show ?case
    by (simp add: checkBlob_def Let_def Cons.IH dom_incr)
qed

lemma word_add_of_nat_pos:
  fixes x :: "'a::len word"
  assumes "0 < k" "unat x + k < 2 ^ LENGTH('a)"
  shows "x + of_nat k \<noteq> 0"
proof -
  have "unat (x + of_nat k) = unat x + k"
    using assms
    by (simp add: unat_word_ariths unat_of_nat)
  then show ?thesis using assms by (metis add_is_0 less_numeral_extra(3) unat_0)
qed

subsection \<open>Claim C3: the error list of checkTree\<close>

text \<open>
  C3 says that checkTree returns one error per dir node without subtree and one error
  per content blob that is not in \<open>blobs\<close>, and that the \<open>blob_id\<close> recorded in such an
  error identifies the missing blob. Lemma \<open>checkTree_returns\<close> gives the shape of the
  list. The recorded blob ID is another matter: every blob error holds the address of the
  loop variable \<open>blobID\<close>, which later iterations overwrite. On the tree below, whose one
  file node has the content blobs 1 and 2, with only blob 2 indexed, checkTree returns one
  blob error for the missing blob 1, and the ID its \<open>BlobID\<close> pointer leads to is 2: an
  indexed blob, not the missing one.
\<close>

theorem checkTree_blob_pointer_alias:
  "checkTree (New\<lparr>blobs := {2}\<rparr>) 7
      (Some \<lparr>Nodes = [\<lparr>Type = ''file'', Content = [1, 2], Subtree = None\<rparr>]\<rparr>) =
    Inr (New\<lparr>blobs := {2}, blobRefs := [1 \<mapsto> 1, 2 \<mapsto> 1]\<rparr>, [blob_error],
         [var_id \<mapsto> 7, var_blobID \<mapsto> 2])
   \<and> deref [var_id \<mapsto> 7, var_blobID \<mapsto> 2] (BlobID blob_error) = Some 2"
  by (simp add: checkTree_def checkBlob_def Let_def New_def incr_def refcount_def deref_def blob_error_def)

subsection \<open>Claim C4: UnusedBlobs\<close>

text \<open>
  C4: UnusedBlobs returns exactly the IDs that are keys of \<open>blobs\<close> and whose counter in
  \<open>blobRefs\<close> reads 0 (a missing counter reads 0) at the time of the call, whatever the
  order in which the map is ranged over; each such ID is returned once.
\<close>

theorem UnusedBlobs_exact:
  "range_order (blobs c) ks \<Longrightarrow>
     set (UnusedBlobs c ks) = {b \<in> blobs c. refcount (blobRefs c) b = 0}
     \<and> distinct (UnusedBlobs c ks)"
  by (auto simp: range_order_def UnusedBlobs_def)

theorem UnusedBlobs_exact_witness:
  "range_order (blobs (New\<lparr>blobs := {1, 2, 3}, blobRefs := [1 \<mapsto> 0, 2 \<mapsto> 5, 3 \<mapsto> 0]\<rparr>)) [3, 1, 2]
   \<and> UnusedBlobs (New\<lparr>blobs := {1, 2, 3}, blobRefs := [1 \<mapsto> 0, 2 \<mapsto> 5, 3 \<mapsto> 0]\<rparr>) [3, 1, 2] = [3, 1]
   \<and> set (UnusedBlobs (New\<lparr>blobs := {1, 2, 3}, blobRefs := [1 \<mapsto> 0, 2 \<mapsto> 5, 3 \<mapsto> 0]\<rparr>) [3, 1, 2])
       = {b \<in> blobs (New\<lparr>blobs := {1, 2, 3}, blobRefs := [1 \<mapsto> 0, 2 \<mapsto> 5, 3 \<mapsto> 0]\<rparr>).
            refcount (blobRefs (New\<lparr>blobs := {1, 2, 3}, blobRefs := [1 \<mapsto> 0, 2 \<mapsto> 5, 3 \<mapsto> 0]\<rparr>)) b = 0}"
proof -
  let ?c = "New\<lparr>blobs := {1, 2, 3}, blobRefs := [1 \<mapsto> 0, 2 \<mapsto> 5, 3 \<mapsto> 0]\<rparr>"
  have r: "range_order (blobs ?c) [3, 1, 2]"
    by (auto simp: range_order_def New_def)
  have u: "UnusedBlobs ?c [3, 1, 2] = [3, 1]"
    by (simp add: UnusedBlobs_def New_def refcount_def)
  from UnusedBlobs_exact [OF r] r u show ?thesis by blast
qed


subsection \<open>Claim C10: counters of blobs that are in no index\<close>

text \<open>
  C10: checkTree increments the counter of every content blob of a file node before it
  looks the blob up in \<open>blobs\<close>. So when a file node of a walked tree refers to a blob
  \<open>b\<close> that is in no index, \<open>blobRefs\<close> has the key \<open>b\<close> afterwards, with a positive
  counter, although \<open>b\<close> is not a key of \<open>blobs\<close>; and UnusedBlobs, which ranges over
  \<open>blobs\<close> only, does not return \<open>b\<close>. The counter is a 64-bit word: the hypothesis
  \<open>nowrap\<close> says that the increments of this call do not wrap it around.
\<close>

theorem checkTree_counts_unindexed_blob:
  assumes run: "checkTree c tid (Some t) = Inr (c', errs, fr)"
    and node: "n \<in> set (Nodes t)" "Type n = ''file''" "b \<in> set (Content n)"
    and unindexed: "b \<notin> blobs c"
    and nowrap: "unat (refcount (blobRefs c) b) + count_list (file_blobs (Nodes t)) b < 2 ^ 64"
  shows "b \<in> dom (blobRefs c') \<and> b \<notin> blobs c' \<and> 0 < refcount (blobRefs c') b
         \<and> blob_error \<in> set errs
         \<and> (\<forall>ks. range_order (blobs c') ks \<longrightarrow> b \<notin> set (UnusedBlobs c' ks))"
proof -
  let ?bs = "file_blobs (Nodes t)"
  let ?s = "checkBlobs ?bs (c, dir_errors 0 (Nodes t), [var_id \<mapsto> tid])"
  have s: "?s = (c', errs, fr)"
    using run by (simp add: checkTree_def collect_eq)
  then have c': "c' = fst ?s" by simp
  have mem: "b \<in> set ?bs"
    using node by (auto simp: file_blobs_def)
  then have pos: "0 < count_list ?bs b"
    using count_list_0_iff [of ?bs b] by simp
  have dom: "b \<in> dom (blobRefs c')"
    unfolding c' checkBlobs_dom using mem by simp
  have bl: "blobs c' = blobs c"
    using checkTree_returns(4) [OF run] .
  have "refcount (blobRefs c') b = refcount (blobRefs c) b + of_nat (count_list ?bs b)"
    unfolding c' by (rule checkBlobs_refcount)
  then have "refcount (blobRefs c') b \<noteq> 0"
    using word_add_of_nat_pos [OF pos, of "refcount (blobRefs c) b"] nowrap by simp
  then have cnt: "0 < refcount (blobRefs c') b"
    by (simp add: word_neq_0_conv)
  have err: "blob_error \<in> set errs"
    unfolding checkTree_returns(1) [OF run] using mem unindexed by auto
  have "b \<notin> set (UnusedBlobs c' ks)" if "range_order (blobs c') ks" for ks
    using that unindexed bl by (auto simp: range_order_def UnusedBlobs_def)
  with dom bl unindexed cnt err show ?thesis by simp
qed

theorem checkTree_counts_unindexed_blob_witness:
  "checkTree (New\<lparr>blobs := {2}\<rparr>) 7
      (Some \<lparr>Nodes = [\<lparr>Type = ''file'', Content = [1, 2], Subtree = None\<rparr>]\<rparr>) =
    Inr (New\<lparr>blobs := {2}, blobRefs := [1 \<mapsto> 1, 2 \<mapsto> 1]\<rparr>, [blob_error],
         [var_id \<mapsto> 7, var_blobID \<mapsto> 2])
   \<and> 1 \<in> dom (blobRefs (New\<lparr>blobs := {2}, blobRefs := [1 \<mapsto> 1, 2 \<mapsto> 1]\<rparr>))
   \<and> 1 \<notin> blobs (New\<lparr>blobs := {2}, blobRefs := [1 \<mapsto> 1, 2 \<mapsto> 1]\<rparr>)
   \<and> 0 < refcount (blobRefs (New\<lparr>blobs := {2}, blobRefs := [1 \<mapsto> 1, 2 \<mapsto> 1]\<rparr>)) 1
   \<and> 1 \<notin> set (UnusedBlobs (New\<lparr>blobs := {2}, blobRefs := [1 \<mapsto> 1, 2 \<mapsto> 1]\<rparr>) [2])"
proof -
  let ?c = "New\<lparr>blobs := {2}\<rparr>"
  let ?n = "\<lparr>Type = ''file'', Content = [1, 2], Subtree = None\<rparr>"
  let ?t = "\<lparr>Nodes = [?n]\<rparr>"
  let ?c' = "New\<lparr>blobs := {2}, blobRefs := [1 \<mapsto> 1, 2 \<mapsto> 1]\<rparr>"
  have run: "checkTree ?c 7 (Some ?t) = Inr (?c', [blob_error], [var_id \<mapsto> 7, var_blobID \<mapsto> 2])"
    by (simp add: checkTree_def checkBlob_def Let_def New_def incr_def refcount_def)
  have n: "?n \<in> set (Nodes ?t)" "Type ?n = ''file''" "1 \<in> set (Content ?n)"
    by simp_all
  have u: "1 \<notin> blobs ?c"
    by (simp add: New_def)
  have w: "unat (refcount (blobRefs ?c) 1) + count_list (file_blobs (Nodes ?t)) 1 < 2 ^ 64"
    by (simp add: New_def refcount_def file_blobs_def)
  have r: "range_order (blobs ?c') [2]"
    by (simp add: range_order_def New_def)
  from checkTree_counts_unindexed_blob [OF run n u w] r run show ?thesis
    by blast
qed

section \<open>Properties of LoadIndex\<close>

lemma fold_processBlob:
  "packs (fold processBlob idx c) = packs c \<union> PackID ` set idx"
  "blobs (fold processBlob idx c) = blobs c \<union> blob_ID ` set idx"
  "blobRefs (fold processBlob idx c) =
     (\<lambda>k. if k \<in> blob_ID ` set idx then Some 0 else blobRefs c k)"
  by (induction idx arbitrary: c) (auto simp: processBlob_def)

lemma processIndex_fields:
  "packs (processIndex i idx c) = packs c \<union> PackID ` set idx"
  "blobs (processIndex i idx c) = blobs c \<union> blob_ID ` set idx"
  "blobRefs (processIndex i idx c) =
     (\<lambda>k. if k \<in> blob_ID ` set idx then Some 0 else blobRefs c k)"
  by (auto simp: processIndex_def fold_processBlob)

lemma consume_fields:
  assumes "consume parse ds c = (None, c')"
  shows "packs c' = packs c \<union> index_packs ds"
    and "blobs c' = blobs c \<union> index_blobs ds"
    and "blobRefs c' = (\<lambda>k. if k \<in> index_blobs ds then Some 0 else blobRefs c k)"
  using assms
proof (induction ds arbitrary: c)
  case Nil
  {
    case 1 then show ?case by (simp add: index_packs_def)
  next
    case 2 then show ?case by (simp add: index_blobs_def)
  next
    case 3 then show ?case by (simp add: index_blobs_def)
  }
next
  case (Cons res ds)
  {
    case 1
    then obtain i where p: "parse (res_ID res) = Inr i"
      and r: "consume parse ds (processIndex i (res_Index res) c) = (None, c')"
      by (auto split: sum.splits)
    show ?case
      using Cons.IH(1) [OF r] by (auto simp: processIndex_fields index_packs_def)
  next
    case 2
    then obtain i where p: "parse (res_ID res) = Inr i"
      and r: "consume parse ds (processIndex i (res_Index res) c) = (None, c')"
      by (auto split: sum.splits)
    show ?case
      using Cons.IH(2) [OF r] by (auto simp: processIndex_fields index_blobs_def)
  next
    case 3
    then obtain i where p: "parse (res_ID res) = Inr i"
      and r: "consume parse ds (processIndex i (res_Index res) c) = (None, c')"
      by (auto split: sum.splits)
    show ?case
      using Cons.IH(3) [OF r] by (auto simp: processIndex_fields index_blobs_def)
  }
qed

lemma LoadIndex_consume:
  assumes "LoadIndex ops drv r c = (None, c', r')"
  shows "consume (ParseID ops) (delivered ops drv r) c = (None, c')"
  using assms
  by (auto simp: LoadIndex_def delivered_def split: prod.splits option.splits)


subsection \<open>Claim C7: an index file in the old format\<close>

text \<open>
  C7: when the first load of an index file returns the sentinel \<open>ErrOldIndexFormat\<close>,
  the worker calls the conversion once, and, if the conversion succeeds, loads once more
  under the ID the conversion returned. It returns the error of a failed conversion, or
  the error of a failed second load (a second \<open>ErrOldIndexFormat\<close> is such an error), and
  calls nothing further: the log of its calls is the first load, the conversion, and at
  most the second load. When the second load succeeds the index is sent with the new ID
  (unless the invocation is cancelled) and the worker returns nil.
\<close>

theorem worker_old_format:
  assumes old: "LoadIndexWithDecoder ops r (String ops i) = Inl ErrOldIndexFormat"
  shows "worker ops cancelled i (r, log, sent) =
     (case ConvertIndex ops r i of
        (Inl err, r1) \<Rightarrow>
          (Some err,
           (r1, log @ [Call_LoadIndexWithDecoder (String ops i), Call_ConvertIndex i], sent))
      | (Inr i1, r1) \<Rightarrow>
          (case LoadIndexWithDecoder ops r1 (String ops i1) of
             Inl err \<Rightarrow>
               (Some err,
                (r1, log @ [Call_LoadIndexWithDecoder (String ops i), Call_ConvertIndex i,
                            Call_LoadIndexWithDecoder (String ops i1)], sent))
           | Inr idx \<Rightarrow>
               (None,
                (r1, log @ [Call_LoadIndexWithDecoder (String ops i), Call_ConvertIndex i,
                            Call_LoadIndexWithDecoder (String ops i1)],
                 if cancelled then sent
                 else sent @ [\<lparr>res_Index = idx, res_ID = String ops i1\<rparr>]))))"
  using old
  by (simp add: worker_def worker_finish_def Let_def split: prod.splits sum.splits)

lemma example_load_a [simp]:
  "LoadIndexWithDecoder example_ops example_repo0 (String example_ops (Suc 0)) = Inl ErrOldIndexFormat"
  by (simp add: example_ops_def example_repo0_def example_String_def)

theorem worker_old_format_witness:
  "LoadIndexWithDecoder example_ops example_repo0 (String example_ops (Suc 0)) = Inl ErrOldIndexFormat
   \<and> fst (worker example_ops False (Suc 0) (example_repo0, [], [])) = None
   \<and> fst (snd (snd (worker example_ops False (Suc 0) (example_repo0, [], [])))) =
       [Call_LoadIndexWithDecoder ''a'', Call_ConvertIndex (Suc 0), Call_LoadIndexWithDecoder ''aa'']
   \<and> snd (snd (snd (worker example_ops False (Suc 0) (example_repo0, [], [])))) =
       [\<lparr>res_Index = [entry 5 50, entry 6 50], res_ID = ''aa''\<rparr>]"
  using worker_old_format [OF example_load_a, of False "[]" "[]"]
  by (simp add: example_ops_def example_repo0_def example_String_def)


subsection \<open>Claim C8: the state after a successful LoadIndex\<close>

text \<open>
  C8: when LoadIndex, run on a new checker, returns nil, every key of \<open>blobRefs\<close> is a key
  of \<open>blobs\<close> and its counter is 0, every key of \<open>blobs\<close> is the blob ID of an entry of
  an index that was delivered to the consumer loop, and every key of \<open>packs\<close> is the pack
  ID of such an entry. This holds for every driver.
\<close>

theorem LoadIndex_state:
  assumes ok: "LoadIndex ops drv r New = (None, c, r')"
  shows "(\<forall>k \<in> dom (blobRefs c). k \<in> blobs c \<and> blobRefs c k = Some 0)
       \<and> (\<forall>b \<in> blobs c. \<exists>res \<in> set (delivered ops drv r). \<exists>e \<in> set (res_Index res). blob_ID e = b)
       \<and> (\<forall>p \<in> packs c. \<exists>res \<in> set (delivered ops drv r). \<exists>e \<in> set (res_Index res). PackID e = p)"
proof -
  let ?ds = "delivered ops drv r"
  have cons: "consume (ParseID ops) ?ds New = (None, c)"
    using ok by (rule LoadIndex_consume)
  have p: "packs c = index_packs ?ds"
    using consume_fields(1) [OF cons] by (simp add: New_def)
  have b: "blobs c = index_blobs ?ds"
    using consume_fields(2) [OF cons] by (simp add: New_def)
  have m: "blobRefs c = (\<lambda>k. if k \<in> index_blobs ?ds then Some 0 else None)"
    using consume_fields(3) [OF cons] by (auto simp: New_def)
  have "\<forall>k \<in> dom (blobRefs c). k \<in> blobs c \<and> blobRefs c k = Some 0"
    unfolding m b by (auto split: if_splits)
  moreover have "\<forall>b \<in> blobs c. \<exists>res \<in> set ?ds. \<exists>e \<in> set (res_Index res). blob_ID e = b"
    unfolding b index_blobs_def by auto
  moreover have "\<forall>p \<in> packs c. \<exists>res \<in> set ?ds. \<exists>e \<in> set (res_Index res). PackID e = p"
    unfolding p index_packs_def by auto
  ultimately show ?thesis by blast
qed

lemma example_LoadIndex:
  "LoadIndex example_ops (FilesInParallel [Suc 0, 3]) example_repo0 New =
     (None, example_checker1, example_repo1)"
  apply (simp add: LoadIndex_def worker_def worker_finish_def Let_def example_ops_def
      example_repo0_def example_String_def eval_nat_numeral processIndex_def processBlob_def
      Merge_def New_def entry_def example_checker1_def example_repo1_def)
  apply (auto simp: fun_eq_iff)
  done

lemma example_LoadIndex_again:
  "LoadIndex example_ops (FilesInParallel [3, 2]) example_repo1 example_checker1 =
     (None,
      example_checker1\<lparr>masterIndex :=
        [entry 5 50, entry 6 50, entry 6 50, entry 7 51, entry 6 50, entry 7 51, entry 5 50, entry 6 50]\<rparr>,
      example_repo1\<lparr>installed :=
        [entry 5 50, entry 6 50, entry 6 50, entry 7 51, entry 6 50, entry 7 51, entry 5 50, entry 6 50]\<rparr>)"
  apply (simp add: LoadIndex_def worker_def worker_finish_def Let_def example_ops_def
      example_String_def eval_nat_numeral processIndex_def processBlob_def
      Merge_def entry_def example_checker1_def example_repo1_def)
  apply (auto simp: fun_eq_iff)
  done

lemma example_LoadIndex_fresh:
  "LoadIndex example_ops (FilesInParallel [3, 2]) example_repo1 New =
     (None,
      example_checker1\<lparr>masterIndex := [entry 6 50, entry 7 51, entry 5 50, entry 6 50]\<rparr>,
      example_repo1\<lparr>installed := [entry 6 50, entry 7 51, entry 5 50, entry 6 50]\<rparr>)"
  apply (simp add: LoadIndex_def worker_def worker_finish_def Let_def example_ops_def
      example_String_def eval_nat_numeral processIndex_def processBlob_def
      Merge_def New_def entry_def example_checker1_def example_repo1_def)
  apply (auto simp: fun_eq_iff)
  done

lemma example_delivered:
  "delivered example_ops (FilesInParallel [Suc 0, 3]) example_repo0 =
     [\<lparr>res_Index = [entry 5 50, entry 6 50], res_ID = ''aa''\<rparr>,
      \<lparr>res_Index = [entry 6 50, entry 7 51], res_ID = ''aaa''\<rparr>]"
  "delivered example_ops (FilesInParallel [3, 2]) example_repo1 =
     [\<lparr>res_Index = [entry 6 50, entry 7 51], res_ID = ''aaa''\<rparr>,
      \<lparr>res_Index = [entry 5 50, entry 6 50], res_ID = ''aa''\<rparr>]"
  by (simp_all add: delivered_def worker_def worker_finish_def Let_def example_ops_def
      example_repo0_def example_String_def eval_nat_numeral example_repo1_def)

theorem LoadIndex_state_witness:
  "fst (LoadIndex example_ops (FilesInParallel [Suc 0, 3]) example_repo0 New) = None
   \<and> blobs (fst (snd (LoadIndex example_ops (FilesInParallel [Suc 0, 3]) example_repo0 New))) = {5, 6, 7}
   \<and> packs (fst (snd (LoadIndex example_ops (FilesInParallel [Suc 0, 3]) example_repo0 New))) = {50, 51}
   \<and> dom (blobRefs (fst (snd (LoadIndex example_ops (FilesInParallel [Suc 0, 3]) example_repo0 New)))) = {5, 6, 7}
   \<and> blobRefs (fst (snd (LoadIndex example_ops (FilesInParallel [Suc 0, 3]) example_repo0 New))) 7 = Some 0"
proof -
  let ?c = "fst (snd (LoadIndex example_ops (FilesInParallel [Suc 0, 3]) example_repo0 New))"
  have d: "dom (blobRefs ?c) = {5, 6, 7}"
    unfolding example_LoadIndex by (auto simp: example_checker1_def)
  then have "7 \<in> dom (blobRefs ?c)" by simp
  with LoadIndex_state [OF example_LoadIndex] have "blobRefs ?c 7 = Some 0"
    unfolding example_LoadIndex by auto
  with d show ?thesis
    unfolding example_LoadIndex by (simp add: example_checker1_def)
qed

subsection \<open>Claim C9: running LoadIndex again\<close>

lemma index_blobs_image:
  "index_blobs ds = (\<Union>idx \<in> res_Index ` set ds. blob_ID ` set idx)"
  by (simp add: index_blobs_def)

lemma index_packs_image:
  "index_packs ds = (\<Union>idx \<in> res_Index ` set ds. PackID ` set idx)"
  by (simp add: index_packs_def)

text \<open>
  C9: LoadIndex runs on a new checker and succeeds (\<open>first\<close>); it then runs a second
  time, on the same checker (\<open>again\<close>) or on a new one (\<open>fresh\<close>), and the indexes
  delivered in the second run are the same set as in the first, in any order and under any
  file names (\<open>same\<close>). Then \<open>packs\<close>, \<open>blobs\<close> and \<open>blobRefs\<close> after the second run are
  those after the first: the same keys, and every counter 0.
\<close>

theorem LoadIndex_rerun:
  assumes first: "LoadIndex ops1 drv1 r1 New = (None, c1, r1')"
    and again: "LoadIndex ops2 drv2 r2 c1 = (None, c2, r2')"
    and fresh: "LoadIndex ops2 drv2 r2 New = (None, c3, r3')"
    and same: "res_Index ` set (delivered ops1 drv1 r1) = res_Index ` set (delivered ops2 drv2 r2)"
  shows "packs c2 = packs c1 \<and> blobs c2 = blobs c1 \<and> blobRefs c2 = blobRefs c1
       \<and> packs c3 = packs c1 \<and> blobs c3 = blobs c1 \<and> blobRefs c3 = blobRefs c1
       \<and> dom (blobRefs c2) = blobs c2 \<and> ran (blobRefs c2) \<subseteq> {0}"
proof -
  let ?d1 = "delivered ops1 drv1 r1" and ?d2 = "delivered ops2 drv2 r2"
  have B: "index_blobs ?d2 = index_blobs ?d1"
    unfolding index_blobs_image same ..
  have P: "index_packs ?d2 = index_packs ?d1"
    unfolding index_packs_image same ..
  note f1 = consume_fields [OF LoadIndex_consume [OF first]]
  note f2 = consume_fields [OF LoadIndex_consume [OF again]]
  note f3 = consume_fields [OF LoadIndex_consume [OF fresh]]
  have p2: "packs c2 = packs c1" and b2: "blobs c2 = blobs c1"
    unfolding f2 f1 P B by auto
  have m1: "blobRefs c1 = (\<lambda>k. if k \<in> index_blobs ?d1 then Some 0 else None)"
    unfolding f1 by (auto simp: New_def)
  have m2: "blobRefs c2 = blobRefs c1"
    unfolding f2 B unfolding m1 by auto
  have p3: "packs c3 = packs c1" and b3: "blobs c3 = blobs c1"
    unfolding f3 f1 P B by auto
  have m3: "blobRefs c3 = blobRefs c1"
    unfolding f3 B m1 by (auto simp: New_def)
  have bl1: "blobs c1 = index_blobs ?d1"
    unfolding f1 by (simp add: New_def)
  have d: "dom (blobRefs c2) = blobs c2"
    unfolding m2 b2 bl1 m1 by (auto split: if_splits)
  have r: "ran (blobRefs c2) \<subseteq> {0}"
    unfolding m2 m1 by (auto simp: ran_def split: if_splits)
  from p2 b2 m2 p3 b3 m3 d r show ?thesis by blast
qed


theorem LoadIndex_rerun_witness:
  "LoadIndex example_ops (FilesInParallel [Suc 0, 3]) example_repo0 New =
     (None, example_checker1, example_repo1)
   \<and> fst (LoadIndex example_ops (FilesInParallel [3, 2]) example_repo1 example_checker1) = None
   \<and> blobRefs (fst (snd (LoadIndex example_ops (FilesInParallel [3, 2]) example_repo1 example_checker1)))
       = blobRefs example_checker1
   \<and> blobs (fst (snd (LoadIndex example_ops (FilesInParallel [3, 2]) example_repo1 New)))
       = blobs example_checker1
   \<and> packs (fst (snd (LoadIndex example_ops (FilesInParallel [3, 2]) example_repo1 New)))
       = packs example_checker1"
proof -
  have same: "res_Index ` set (delivered example_ops (FilesInParallel [Suc 0, 3]) example_repo0) =
      res_Index ` set (delivered example_ops (FilesInParallel [3, 2]) example_repo1)"
    unfolding example_delivered by auto
  from LoadIndex_rerun [OF example_LoadIndex example_LoadIndex_again example_LoadIndex_fresh same]
  show ?thesis
    unfolding example_LoadIndex example_LoadIndex_again example_LoadIndex_fresh by simp
qed

section \<open>Properties of the Structure pipeline\<close>

text \<open>What a step does to the counters and to the logs.\<close>

lemma filter_head_fields [simp]:
  "checker_state (filter_head p) = checker_state p"
  "walked (filter_head p) = walked p"
  "checked (filter_head p) = checked p"
  "counted (filter_head p) = counted p"
  "panicked (filter_head p) = panicked p"
  "loaders (filter_head p) = loaders p"
  "checkers (filter_head p) = checkers p"
  "done_closed (filter_head p) = done_closed p"
  by (simp_all add: filter_head_def Let_def)

text \<open>The steps, case by case: what allows the step and the state after it.\<close>

lemma step_cases:
  assumes "step lt a p = Some p'"
  obtains
    (SendLoad) i where "a = SendLoad i" "panicked p = None" "\<not> filter_returned p" "loadCh p"
      "i < defaultParallelism" "loaders p i = LoaderRecv"
      "p' = filter_head
        (p\<lparr>loaders := (loaders p)
              (i := LoaderSend \<lparr>job_ID = nextTreeID p, job_error = snd (lt (nextTreeID p)),
                                job_Tree = fst (lt (nextTreeID p))\<rparr>),
           outstandingLoadTreeJobs := outstandingLoadTreeJobs p + 1,
           loadCh := False\<rparr>)"
  | (RecvPanic) i j where "a = RecvJob i" "panicked p = None" "\<not> filter_returned p" "inCh p"
      "i < defaultParallelism" "loaders p i = LoaderSend j" "job_Tree j = None"
      "p' = p\<lparr>loaders := (loaders p)(i := LoaderRecv),
               outstandingLoadTreeJobs := outstandingLoadTreeJobs p - 1,
               panicked := Some NilPointerDereference\<rparr>"
  | (RecvJob) i j t where "a = RecvJob i" "panicked p = None" "\<not> filter_returned p" "inCh p"
      "i < defaultParallelism" "loaders p i = LoaderSend j" "job_Tree j = Some t"
      "p' = filter_head
        (p\<lparr>loaders := (loaders p)(i := LoaderRecv),
           outstandingLoadTreeJobs := outstandingLoadTreeJobs p - 1,
           backlog := backlog p @ Subtrees t, job := j, outCh := True, inCh := False\<rparr>)"
  | (SendJob) k where "a = SendJob k" "panicked p = None" "\<not> filter_returned p" "outCh p"
      "k < defaultParallelism" "checkers p k = CheckerRecv"
      "p' = filter_head
        (p\<lparr>checkers := (checkers p)(k := CheckerLock (job p)), outCh := False, inCh := True\<rparr>)"
  | (LockSeen) k j where "a = Lock k" "panicked p = None" "k < defaultParallelism"
      "checkers p k = CheckerLock j" "0 < refcount (blobRefs (checker_state p)) (job_ID j)"
      "p' = p\<lparr>checker_state := (checker_state p)
                 \<lparr>blobRefs := incr (blobRefs (checker_state p)) (job_ID j)\<rparr>,
               walked := walked p @ [job_ID j],
               checkers := (checkers p)(k := CheckerRecv)\<rparr>"
  | (LockPanic) k j where "a = Lock k" "panicked p = None" "k < defaultParallelism"
      "checkers p k = CheckerLock j" "\<not> 0 < refcount (blobRefs (checker_state p)) (job_ID j)"
      "job_Tree j = None"
      "p' = p\<lparr>checker_state := (checker_state p)
                 \<lparr>blobRefs := incr (blobRefs (checker_state p)) (job_ID j)\<rparr>,
               walked := walked p @ [job_ID j],
               checked := checked p @ [job_ID j],
               panicked := Some NilPointerDereference\<rparr>"
  | (LockCheck) k j t bs errs where "a = Lock k" "panicked p = None" "k < defaultParallelism"
      "checkers p k = CheckerLock j" "\<not> 0 < refcount (blobRefs (checker_state p)) (job_ID j)"
      "job_Tree j = Some t" "collect 0 (Nodes t) ([], []) = (bs, errs)"
      "p' = p\<lparr>checker_state := (checker_state p)
                 \<lparr>blobRefs := incr (blobRefs (checker_state p)) (job_ID j)\<rparr>,
               walked := walked p @ [job_ID j],
               checked := checked p @ [job_ID j],
               checkers := (checkers p)
                 (k := CheckerBlobs (job_ID j) bs errs [var_id \<mapsto> job_ID j])\<rparr>"
  | (Blob) k tid b bs errs fr c1 errs1 fr1 where "a = Blob k" "panicked p = None"
      "k < defaultParallelism" "checkers p k = CheckerBlobs tid (b # bs) errs fr"
      "checkBlob b (checker_state p, errs, fr) = (c1, errs1, fr1)"
      "p' = p\<lparr>checker_state := c1, counted := counted p @ [b],
               checkers := (checkers p)(k := CheckerBlobs tid bs errs1 fr1)\<rparr>"
  | (Return) k tid errs fr where "a = Return k" "panicked p = None"
      "k < defaultParallelism" "checkers p k = CheckerBlobs tid [] errs fr"
      "p' = p\<lparr>checkers := (checkers p)
                  (k := if 0 < length errs
                        then CheckerSend \<lparr>te_ID = tid, Errors = errs, te_frame = fr\<rparr>
                        else CheckerRecv)\<rparr>"
  | (Cancel) "a = Cancel" "panicked p = None" "\<not> done_closed p" "p' = p\<lparr>done_closed := True\<rparr>"
  | (FilterCancelled) "a = FilterCancelled" "panicked p = None" "done_closed p"
      "\<not> filter_returned p" "p' = p\<lparr>filter_returned := True\<rparr>"
  | (LoaderCancelled) i where "a = LoaderCancelled i" "panicked p = None" "done_closed p"
      "i < defaultParallelism" "p' = p\<lparr>loaders := (loaders p)(i := LoaderReturned)\<rparr>"
  | (CheckerCancelled) k where "a = CheckerCancelled k" "panicked p = None" "done_closed p"
      "k < defaultParallelism" "at_select (checkers p k)"
      "p' = p\<lparr>checkers := (checkers p)(k := CheckerReturned)\<rparr>"
  | (LoaderClosed) i where "a = LoaderClosed i" "panicked p = None" "filter_returned p"
      "i < defaultParallelism" "loaders p i = LoaderRecv"
      "p' = p\<lparr>loaders := (loaders p)(i := LoaderReturned)\<rparr>"
  | (CheckerClosed) k where "a = CheckerClosed k" "panicked p = None" "filter_returned p"
      "k < defaultParallelism" "checkers p k = CheckerRecv"
      "p' = p\<lparr>checkers := (checkers p)(k := CheckerReturned)\<rparr>"
proof (cases a)
  case (SendLoad i)
  with assms that(1) show ?thesis by (simp split: if_splits)
next
  case (RecvJob i)
  with assms obtain j where g: "panicked p = None" "\<not> filter_returned p" "inCh p"
      "i < defaultParallelism" "loaders p i = LoaderSend j"
    by (auto split: if_splits loader.splits)
  show ?thesis
  proof (cases "job_Tree j")
    case None
    with RecvJob assms g that(2) show ?thesis by (simp add: Let_def)
  next
    case (Some t)
    with RecvJob assms g that(3) show ?thesis by (simp add: Let_def)
  qed
next
  case (SendJob k)
  with assms that(4) show ?thesis by (simp split: if_splits)
next
  case (Lock k)
  with assms obtain j where g: "panicked p = None" "k < defaultParallelism"
      "checkers p k = CheckerLock j"
    by (auto split: if_splits checker.splits)
  show ?thesis
  proof (cases "0 < refcount (blobRefs (checker_state p)) (job_ID j)")
    case True
    with Lock assms g that(5) show ?thesis by (simp add: Let_def)
  next
    case False
    show ?thesis
    proof (cases "job_Tree j")
      case None
      with False Lock assms g that(6) show ?thesis by (simp add: Let_def)
    next
      case (Some t)
      obtain bs errs where c: "collect 0 (Nodes t) ([], []) = (bs, errs)"
        by (cases "collect 0 (Nodes t) ([], [])")
      with Some False Lock assms g that(7) show ?thesis by (simp add: Let_def)
    qed
  qed
next
  case (Blob k)
  with assms obtain tid b bs errs fr where g: "panicked p = None" "k < defaultParallelism"
      "checkers p k = CheckerBlobs tid (b # bs) errs fr"
    by (auto split: if_splits checker.splits list.splits)
  obtain c1 errs1 fr1 where c: "checkBlob b (checker_state p, errs, fr) = (c1, errs1, fr1)"
    by (cases "checkBlob b (checker_state p, errs, fr)")
  with Blob assms g that(8) show ?thesis by simp
next
  case (Return k)
  with assms obtain tid errs fr where g: "panicked p = None" "k < defaultParallelism"
      "checkers p k = CheckerBlobs tid [] errs fr"
    by (auto split: if_splits checker.splits list.splits)
  with Return assms that(9) show ?thesis by simp
next
  case Cancel
  with assms that(10) show ?thesis by (simp split: if_splits)
next
  case FilterCancelled
  with assms that(11) show ?thesis by (simp split: if_splits)
next
  case (LoaderCancelled i)
  with assms that(12) show ?thesis by (simp split: if_splits)
next
  case (CheckerCancelled k)
  with assms that(13) show ?thesis by (simp split: if_splits)
next
  case (LoaderClosed i)
  with assms that(14) show ?thesis by (simp split: if_splits)
next
  case (CheckerClosed k)
  with assms that(15) show ?thesis by (simp split: if_splits)
qed

text \<open>What a step does to the counters and to the logs.\<close>

lemma step_effect:
  assumes "step lt a p = Some p'"
  shows "blobs (checker_state p') = blobs (checker_state p) \<and>
    ((blobRefs (checker_state p') = blobRefs (checker_state p)
       \<and> walked p' = walked p \<and> checked p' = checked p \<and> counted p' = counted p)
     \<or> (\<exists>t. blobRefs (checker_state p') = incr (blobRefs (checker_state p)) t
            \<and> walked p' = walked p @ [t] \<and> counted p' = counted p
            \<and> (if 0 < refcount (blobRefs (checker_state p)) t then checked p' = checked p
                else checked p' = checked p @ [t]))
     \<or> (\<exists>b. blobRefs (checker_state p') = incr (blobRefs (checker_state p)) b
            \<and> walked p' = walked p \<and> checked p' = checked p \<and> counted p' = counted p @ [b]))"
proof (cases a)
  case (SendLoad i)
  with assms show ?thesis by (auto split: if_splits)
next
  case (RecvJob i)
  with assms show ?thesis
    by (auto simp: Let_def split: if_splits loader.splits option.splits)
next
  case (SendJob k)
  with assms show ?thesis by (auto split: if_splits)
next
  case (Lock k)
  with assms show ?thesis
    by (auto simp: Let_def split: if_splits checker.splits option.splits prod.splits)
next
  case (Blob k)
  with assms show ?thesis
    by (auto simp: checkBlob_def Let_def split: if_splits checker.splits list.splits)
next
  case (Return k)
  with assms show ?thesis
    by (auto split: if_splits checker.splits list.splits)
next
  case Cancel
  with assms show ?thesis by (auto split: if_splits)
next
  case FilterCancelled
  with assms show ?thesis by (auto split: if_splits)
next
  case (LoaderCancelled i)
  with assms show ?thesis by (auto split: if_splits)
next
  case (CheckerCancelled k)
  with assms show ?thesis by (auto split: if_splits)
next
  case (LoaderClosed i)
  with assms show ?thesis by (auto split: if_splits)
next
  case (CheckerClosed k)
  with assms show ?thesis by (auto split: if_splits)
qed


lemma unat_add_of_nat:
  fixes x :: "'a::len word"
  assumes "unat x + k < 2 ^ LENGTH('a)"
  shows "unat (x + of_nat k) = unat x + k"
  using assms by (simp add: unat_word_ariths unat_of_nat)

lemma run_snoc:
  "run lt (as @ [a]) p = (case run lt as p of None \<Rightarrow> None | Some q \<Rightarrow> step lt a q)"
  by (induction as arbitrary: p) (auto split: option.splits)

lemma run_blobs:
  "run lt as p0 = Some p \<Longrightarrow> blobs (checker_state p) = blobs (checker_state p0)"
proof (induction as arbitrary: p rule: rev_induct)
  case Nil
  then show ?case by simp
next
  case (snoc a as)
  then obtain q where q: "run lt as p0 = Some q" and s: "step lt a q = Some p"
    by (auto simp: run_snoc split: option.splits)
  from step_effect [OF s] snoc.IH [OF q] show ?case by simp
qed

lemma run_counter:
  assumes "run lt as p0 = Some p" "walked p0 = []" "counted p0 = []"
  shows "refcount (blobRefs (checker_state p)) t =
           refcount (blobRefs (checker_state p0)) t
             + of_nat (count_list (walked p) t + count_list (counted p) t)"
  using assms(1)
proof (induction as arbitrary: p rule: rev_induct)
  case Nil
  then show ?case using assms(2,3) by simp
next
  case (snoc a as)
  then obtain q where q: "run lt as p0 = Some q" and s: "step lt a q = Some p"
    by (auto simp: run_snoc split: option.splits)
  note IH = snoc.IH [OF q]
  from step_effect [OF s] show ?case
    using IH by (auto simp: refcount_incr split: if_splits)
qed

lemma run_dedup:
  assumes "run lt as p0 = Some p" "walked p0 = []" "counted p0 = []" "checked p0 = []"
    and "unat (refcount (blobRefs (checker_state p0)) t)
           + count_list (walked p) t + count_list (counted p) t < 2 ^ 64"
  shows "count_list (checked p) t \<le> 1
       \<and> (t \<in> set (checked p) \<longrightarrow>
            refcount (blobRefs (checker_state p0)) t = 0 \<and> 0 < count_list (walked p) t)"
  using assms(1,5)
proof (induction as arbitrary: p rule: rev_induct)
  case Nil
  then show ?case using assms(4) by simp
next
  case (snoc a as)
  let ?r0 = "refcount (blobRefs (checker_state p0)) t"
  from snoc.prems(1) obtain q where q: "run lt as p0 = Some q" and s: "step lt a q = Some p"
    by (auto simp: run_snoc split: option.splits)
  note eff = step_effect [OF s]
  have grow: "count_list (walked q) t \<le> count_list (walked p) t"
    "count_list (counted q) t \<le> count_list (counted p) t"
    using eff by auto
  with snoc.prems(2) have nowrap: "unat ?r0 + count_list (walked q) t + count_list (counted q) t < 2 ^ 64"
    by linarith
  note IH = snoc.IH [OF q nowrap]
  note cnt = run_counter [OF q assms(2,3), of t]
  from eff consider
      (same) "checked p = checked q"
    | (walk) t' where "walked p = walked q @ [t']"
        "if 0 < refcount (blobRefs (checker_state q)) t' then checked p = checked q
         else checked p = checked q @ [t']"
    by blast
  then show ?case
  proof cases
    case same
    with IH grow show ?thesis by auto
  next
    case walk
    show ?thesis
    proof (cases "t' = t \<and> \<not> 0 < refcount (blobRefs (checker_state q)) t")
      case False
      with walk(2) have "count_list (checked p) t = count_list (checked q) t"
        "t \<in> set (checked p) \<longleftrightarrow> t \<in> set (checked q)"
        by (auto split: if_splits)
      with IH grow show ?thesis by auto
    next
      case True
      then have call: "checked p = checked q @ [t]" "walked p = walked q @ [t]"
        "refcount (blobRefs (checker_state q)) t = 0"
        using walk by (auto simp: word_gt_0)
      from call(3) cnt
      have "?r0 + of_nat (count_list (walked q) t + count_list (counted q) t) = 0"
        by simp
      moreover have "unat (?r0 + of_nat (count_list (walked q) t + count_list (counted q) t))
          = unat ?r0 + (count_list (walked q) t + count_list (counted q) t)"
        using nowrap by (intro unat_add_of_nat) simp
      ultimately have z: "unat ?r0 = 0" "count_list (walked q) t = 0"
        by simp_all
      then have "t \<notin> set (checked q)" using IH by auto
      then have "count_list (checked q) t = 0" by simp
      with call z show ?thesis by (simp add: unat_eq_0)
    qed
  qed
qed

lemma sum_fun_upd:
  fixes h :: "'a \<Rightarrow> nat" and g :: "nat \<Rightarrow> 'a" and i n :: nat
  assumes "i < n"
  shows "(\<Sum>x < n. h ((g(i := v)) x)) + h (g i) = (\<Sum>x < n. h (g x)) + h v"
proof -
  have fin: "finite {..<n}" and mem: "i \<in> {..<n}" using assms by auto
  have "(\<Sum>x < n. h ((g(i := v)) x)) = h v + (\<Sum>x \<in> {..<n} - {i}. h ((g(i := v)) x))"
    using sum.remove [OF fin mem, of "\<lambda>x. h ((g(i := v)) x)"] by simp
  moreover have "(\<Sum>x \<in> {..<n} - {i}. h ((g(i := v)) x)) = (\<Sum>x \<in> {..<n} - {i}. h (g x))"
    by (rule sum.cong) auto
  moreover have "(\<Sum>x < n. h (g x)) = h (g i) + (\<Sum>x \<in> {..<n} - {i}. h (g x))"
    using sum.remove [OF fin mem, of "\<lambda>x. h (g x)"] by simp
  ultimately show ?thesis by simp
qed

lemma ahead_filter_head [simp]: "ahead f (filter_head p) = ahead f p"
  by (cases "backlog p") (auto simp: ahead_def filter_head_def Let_def)

lemma behind_filter_head [simp]: "behind f (filter_head p) = behind f p"
  by (auto simp: behind_def filter_head_def Let_def)

lemma jobs_ok_filter_head:
  assumes "jobs_ok lt p" "\<not> filter_returned p"
  shows "jobs_ok lt (filter_head p)"
  using assms by (cases "backlog p") (auto simp: jobs_ok_def filter_head_def Let_def)

lemma jobs_ok_init: "jobs_ok lt (Structure_init c trees)"
  by (cases trees) (auto simp: jobs_ok_def Structure_init_def filter_head_def Let_def)


lemma jobs_ok_step:
  assumes "step lt a p = Some p'" "jobs_ok lt p"
  shows "jobs_ok lt p'"
  using assms(1)
proof (cases rule: step_cases)
  case (SendLoad i)
  show ?thesis unfolding SendLoad(7)
    by (rule jobs_ok_filter_head) (use assms(2) SendLoad(3) in \<open>auto simp: jobs_ok_def job_ok_def\<close>)
next
  case (RecvPanic i j)
  with assms(2) show ?thesis by (auto simp: jobs_ok_def)
next
  case (RecvJob i j t)
  show ?thesis unfolding RecvJob(8)
    by (rule jobs_ok_filter_head) (use assms(2) RecvJob(3,4,6) in \<open>auto simp: jobs_ok_def\<close>)
next
  case (SendJob k)
  show ?thesis unfolding SendJob(7)
    by (rule jobs_ok_filter_head) (use assms(2) SendJob(3,4) in \<open>auto simp: jobs_ok_def\<close>)
next
  case (LockSeen k j)
  with assms(2) show ?thesis by (auto simp: jobs_ok_def)
next
  case (LockPanic k j)
  with assms(2) show ?thesis by (auto simp: jobs_ok_def)
next
  case (LockCheck k j t bs errs)
  with assms(2) show ?thesis by (auto simp: jobs_ok_def)
next
  case (Blob k tid b bs errs fr c1 errs1 fr1)
  with assms(2) show ?thesis by (auto simp: jobs_ok_def)
next
  case (Return k tid errs fr)
  with assms(2) show ?thesis by (auto simp: jobs_ok_def)
next
  case Cancel
  with assms(2) show ?thesis by (auto simp: jobs_ok_def)
next
  case FilterCancelled
  with assms(2) show ?thesis by (auto simp: jobs_ok_def)
next
  case (LoaderCancelled i)
  with assms(2) show ?thesis by (auto simp: jobs_ok_def)
next
  case (CheckerCancelled k)
  with assms(2) show ?thesis by (auto simp: jobs_ok_def)
next
  case (LoaderClosed i)
  with assms(2) show ?thesis by (auto simp: jobs_ok_def)
next
  case (CheckerClosed k)
  with assms(2) show ?thesis by (auto simp: jobs_ok_def)
qed

lemma run_jobs_ok:
  "run lt as (Structure_init c trees) = Some p \<Longrightarrow> jobs_ok lt p"
proof (induction as arbitrary: p rule: rev_induct)
  case Nil
  then show ?case using jobs_ok_init [of lt c trees] by auto
next
  case (snoc a as)
  then obtain q where q: "run lt as (Structure_init c trees) = Some q" and s: "step lt a q = Some p"
    by (auto simp: run_snoc split: option.splits)
  from jobs_ok_step [OF s snoc.IH [OF q]] show ?case .
qed


lemma loader_hold_simps [simp]:
  "loader_hold f LoaderRecv = 0"
  "loader_hold f (LoaderSend j) = f (job_ID j)"
  "loader_hold f LoaderReturned = 0"
  by (simp_all add: loader_hold_def)

lemma checker_hold_simps [simp]:
  "checker_hold f CheckerRecv = 0"
  "checker_hold f (CheckerLock j) = f (job_ID j)"
  "checker_hold f (CheckerBlobs tid bs errs fr) = 0"
  "checker_hold f (CheckerSend e) = 0"
  "checker_hold f CheckerReturned = 0"
  by (simp_all add: checker_hold_def)

lemma flow_step:
  assumes "step lt a p = Some p'" "jobs_ok lt p" "\<not> done_closed p'" "panicked p' = None"
  shows "(\<forall>f. ahead f p' = ahead f p \<and> behind f p' = behind f p)
       \<or> (\<exists>u. \<forall>f. ahead f p' + f u = ahead f p + sum_list (map f (subtrees_of lt u))
                 \<and> behind f p' = behind f p + f u)"
  using assms(1)
proof (cases rule: step_cases)
  case (SendLoad i)
  have "ahead f p' = ahead f p \<and> behind f p' = behind f p" for f
    unfolding SendLoad(7)
    using sum_fun_upd [OF SendLoad(5), of "loader_hold f" "loaders p"
        "LoaderSend \<lparr>job_ID = nextTreeID p, job_error = snd (lt (nextTreeID p)),
                                job_Tree = fst (lt (nextTreeID p))\<rparr>"] SendLoad(4,6)
    by (simp only: ahead_filter_head behind_filter_head) (simp add: ahead_def behind_def)
  then show ?thesis by blast
next
  case (RecvPanic i j)
  with assms(4) show ?thesis by simp
next
  case (RecvJob i j t)
  have no: "\<not> outCh p" using assms(2) RecvJob(4) by (simp add: jobs_ok_def)
  have "job_ok lt j" using assms(2) RecvJob(6) by (auto simp: jobs_ok_def)
  then have sub: "subtrees_of lt (job_ID j) = Subtrees t"
    using RecvJob(7) by (auto simp: job_ok_def subtrees_of_def split: option.splits)
  have "ahead f p' + f (job_ID j) = ahead f p + sum_list (map f (subtrees_of lt (job_ID j)))
      \<and> behind f p' = behind f p + f (job_ID j)" for f
    unfolding RecvJob(8) sub
    using sum_fun_upd [OF RecvJob(5), of "loader_hold f" "loaders p" LoaderRecv] RecvJob(6) no
    by (simp only: ahead_filter_head behind_filter_head) (simp add: ahead_def behind_def)
  then show ?thesis by blast
next
  case (SendJob k)
  have "ahead f p' = ahead f p \<and> behind f p' = behind f p" for f
    unfolding SendJob(7)
    using sum_fun_upd [OF SendJob(5), of "checker_hold f" "checkers p" "CheckerLock (job p)"]
      SendJob(4,6)
    by (simp only: ahead_filter_head behind_filter_head) (simp add: ahead_def behind_def)
  then show ?thesis by blast
next
  case (LockSeen k j)
  have "ahead f p' = ahead f p \<and> behind f p' = behind f p" for f
    unfolding LockSeen(6)
    using sum_fun_upd [OF LockSeen(3), of "checker_hold f" "checkers p" CheckerRecv] LockSeen(4)
    by (simp only: ahead_filter_head behind_filter_head) (simp add: ahead_def behind_def)
  then show ?thesis by blast
next
  case (LockPanic k j)
  with assms(4) show ?thesis by simp
next
  case (LockCheck k j t bs errs)
  have "ahead f p' = ahead f p \<and> behind f p' = behind f p" for f
    unfolding LockCheck(8)
    using sum_fun_upd [OF LockCheck(3), of "checker_hold f" "checkers p"
        "CheckerBlobs (job_ID j) bs errs [var_id \<mapsto> job_ID j]"] LockCheck(4)
    by (simp only: ahead_filter_head behind_filter_head) (simp add: ahead_def behind_def)
  then show ?thesis by blast
next
  case (Blob k tid b bs errs fr c1 errs1 fr1)
  have "ahead f p' = ahead f p \<and> behind f p' = behind f p" for f
    unfolding Blob(6)
    using sum_fun_upd [OF Blob(3), of "checker_hold f" "checkers p"
        "CheckerBlobs tid bs errs1 fr1"] Blob(4)
    by (simp only: ahead_filter_head behind_filter_head) (simp add: ahead_def behind_def)
  then show ?thesis by blast
next
  case (Return k tid errs fr)
  have "ahead f p' = ahead f p \<and> behind f p' = behind f p" for f
    unfolding Return(5)
    using sum_fun_upd [OF Return(3), of "checker_hold f" "checkers p"
        "if 0 < length errs
         then CheckerSend \<lparr>te_ID = tid, Errors = errs, te_frame = fr\<rparr>
         else CheckerRecv"] Return(4)
    by (simp only: ahead_filter_head behind_filter_head) (simp add: ahead_def behind_def)
  then show ?thesis by blast
next
  case Cancel
  with assms(3) show ?thesis by simp
next
  case FilterCancelled
  with assms(3) show ?thesis by simp
next
  case (LoaderCancelled i)
  with assms(3) show ?thesis by simp
next
  case (CheckerCancelled k)
  with assms(3) show ?thesis by simp
next
  case (LoaderClosed i)
  have "ahead f p' = ahead f p \<and> behind f p' = behind f p" for f
    unfolding LoaderClosed(6)
    using sum_fun_upd [OF LoaderClosed(4), of "loader_hold f" "loaders p" LoaderReturned]
      LoaderClosed(5)
    by (simp only: ahead_filter_head behind_filter_head) (simp add: ahead_def behind_def)
  then show ?thesis by blast
next
  case (CheckerClosed k)
  have "ahead f p' = ahead f p \<and> behind f p' = behind f p" for f
    unfolding CheckerClosed(6)
    using sum_fun_upd [OF CheckerClosed(4), of "checker_hold f" "checkers p" CheckerReturned]
      CheckerClosed(5)
    by (simp only: ahead_filter_head behind_filter_head) (simp add: ahead_def behind_def)
  then show ?thesis by blast
qed


lemma step_live:
  assumes "step lt a p = Some p'"
  shows "panicked p = None" and "done_closed p \<Longrightarrow> done_closed p'"
  using assms by (cases rule: step_cases; simp)+

lemma sum_list_indicator:
  "sum_list (map (\<lambda>u. if u = t then 1 else 0) xs) = count_list xs t"
  by (induction xs) auto

lemma flow_init:
  "ahead f (Structure_init c trees) = sum_list (map f trees)"
  "behind f (Structure_init c trees) = 0"
  by (simp_all add: Structure_init_def) (simp_all add: ahead_def behind_def)

lemma run_flow:
  assumes "run lt as (Structure_init c trees) = Some p" "\<not> done_closed p" "panicked p = None"
  shows "ahead (\<lambda>u. if u = t then 1 else 0) p + behind (\<lambda>u. if u = t then 1 else 0) p
           = count_list trees t + behind (children lt t) p"
  using assms
proof (induction as arbitrary: p rule: rev_induct)
  case Nil
  then have "p = Structure_init c trees" by simp
  then show ?case by (simp add: flow_init sum_list_indicator)
next
  case (snoc a as)
  let ?d = "\<lambda>u. if u = t then (1::nat) else 0"
  from snoc.prems(1) obtain q where q: "run lt as (Structure_init c trees) = Some q"
    and s: "step lt a q = Some p"
    by (auto simp: run_snoc split: option.splits)
  have nq: "\<not> done_closed q" "panicked q = None"
    using step_live [OF s] snoc.prems(2) by auto
  note IH = snoc.IH [OF q nq]
  from flow_step [OF s run_jobs_ok [OF q] snoc.prems(2,3)]
  show ?case
  proof
    assume "\<forall>f. ahead f p = ahead f q \<and> behind f p = behind f q"
    with IH show ?thesis by simp
  next
    assume "\<exists>u. \<forall>f. ahead f p + f u = ahead f q + sum_list (map f (subtrees_of lt u))
                 \<and> behind f p = behind f q + f u"
    then obtain u where u: "\<And>f. ahead f p + f u = ahead f q + sum_list (map f (subtrees_of lt u))"
      "\<And>f. behind f p = behind f q + f u"
      by blast
    have "ahead ?d p + ?d u = ahead ?d q + children lt t u"
      using u(1) [of ?d] by (simp add: sum_list_indicator children_def)
    moreover have "behind ?d p = behind ?d q + ?d u"
      "behind (children lt t) p = behind (children lt t) q + children lt t u"
      using u(2) by simp_all
    ultimately show ?thesis using IH by linarith
  qed
qed

text \<open>The number of outstanding loads, and the state when the walk is over.\<close>

lemma loads_ok_filter_head:
  assumes "loads_ok p" "\<not> filter_returned p"
  shows "loads_ok (filter_head p)"
  using assms by (auto simp: loads_ok_def filter_head_def Let_def)

lemma loads_ok_init: "loads_ok (Structure_init c trees)"
  by (auto simp: loads_ok_def Structure_init_def filter_head_def Let_def)

lemma loads_ok_step:
  assumes "step lt a p = Some p'" "loads_ok p"
  shows "loads_ok p'"
  using assms(1)
proof (cases rule: step_cases)
  case (SendLoad i)
  let ?j = "\<lparr>job_ID = nextTreeID p, job_error = snd (lt (nextTreeID p)),
             job_Tree = fst (lt (nextTreeID p))\<rparr>"
  let ?q = "p\<lparr>loaders := (loaders p)(i := LoaderSend ?j),
             outstandingLoadTreeJobs := outstandingLoadTreeJobs p + 1, loadCh := False\<rparr>"
  have "loads_ok ?q"
    using assms(2) SendLoad(3,6)
      sum_fun_upd [OF SendLoad(5), of "loader_hold (\<lambda>u. 1)" "loaders p" "LoaderSend ?j"]
    by (auto simp: loads_ok_def simp del: of_nat_sum)
  then show ?thesis unfolding SendLoad(7)
    by (rule loads_ok_filter_head) (simp add: SendLoad(3))
next
  case (RecvPanic i j)
  with assms(2) sum_fun_upd [OF RecvPanic(5), of "loader_hold (\<lambda>u. 1)" "loaders p" LoaderRecv]
  show ?thesis by (auto simp: loads_ok_def simp del: of_nat_sum)
next
  case (RecvJob i j t)
  let ?q = "p\<lparr>loaders := (loaders p)(i := LoaderRecv),
           outstandingLoadTreeJobs := outstandingLoadTreeJobs p - 1,
           backlog := backlog p @ Subtrees t, job := j, outCh := True, inCh := False\<rparr>"
  have "loads_ok ?q"
    using assms(2) RecvJob(3,6)
      sum_fun_upd [OF RecvJob(5), of "loader_hold (\<lambda>u. 1)" "loaders p" LoaderRecv]
    by (auto simp: loads_ok_def simp del: of_nat_sum)
  then show ?thesis unfolding RecvJob(8)
    by (rule loads_ok_filter_head) (simp add: RecvJob(3))
next
  case (SendJob k)
  let ?q = "p\<lparr>checkers := (checkers p)(k := CheckerLock (job p)), outCh := False, inCh := True\<rparr>"
  have "loads_ok ?q"
    using assms(2) SendJob(3) by (auto simp: loads_ok_def)
  then show ?thesis unfolding SendJob(7)
    by (rule loads_ok_filter_head) (simp add: SendJob(3))
next
  case (LoaderClosed i)
  with assms(2) sum_fun_upd [OF LoaderClosed(4), of "loader_hold (\<lambda>u. 1)" "loaders p" LoaderReturned]
  show ?thesis by (auto simp: loads_ok_def simp del: of_nat_sum)
qed (use assms(2) in \<open>auto simp: loads_ok_def\<close>)

lemma run_loads_ok:
  "run lt as (Structure_init c trees) = Some p \<Longrightarrow> loads_ok p"
proof (induction as arbitrary: p rule: rev_induct)
  case Nil
  then show ?case using loads_ok_init [of c trees] by auto
next
  case (snoc a as)
  then obtain q where q: "run lt as (Structure_init c trees) = Some q" and s: "step lt a q = Some p"
    by (auto simp: run_snoc split: option.splits)
  from loads_ok_step [OF s snoc.IH [OF q]] show ?case .
qed

lemma loader_hold_zero:
  "loader_hold (\<lambda>u. 1) w = 0 \<Longrightarrow> loader_hold f w = 0"
  by (cases w) simp_all

lemma checker_hold_zero:
  "checker_hold (\<lambda>u. 1) w = 0 \<Longrightarrow> checker_hold f w = 0"
  by (cases w) simp_all

lemma drained_flow:
  assumes "drained p" "jobs_ok lt p" "loads_ok p"
  shows "ahead f p = 0" "behind f p = sum_list (map f (walked p))"
proof -
  from assms(1) have d: "filter_returned p" "\<not> done_closed p"
    and c: "\<And>k. k < defaultParallelism \<Longrightarrow> checker_hold (\<lambda>u. 1) (checkers p k) = 0"
    by (auto simp: drained_def)
  from assms(2) d have e: "backlog p = []" "\<not> loadCh p" "\<not> outCh p"
    by (auto simp: jobs_ok_def)
  from assms(3) d have "int (\<Sum>i < defaultParallelism. loader_hold (\<lambda>u. 1) (loaders p i)) = 0"
    unfolding loads_ok_def by metis
  then have "(\<Sum>i < defaultParallelism. loader_hold (\<lambda>u. 1) (loaders p i)) = 0"
    by (simp only: of_nat_eq_0_iff)
  then have l: "\<And>i. i < defaultParallelism \<Longrightarrow> loader_hold (\<lambda>u. 1) (loaders p i) = 0"
    by simp
  show "ahead f p = 0"
    using e l by (simp add: ahead_def loader_hold_zero)
  show "behind f p = sum_list (map f (walked p))"
    using e c by (simp add: behind_def checker_hold_zero)
qed

subsection \<open>Claim C1: every tree is checked at most once, every job is counted once\<close>

text \<open>
  C1, as the code has it. For every run of the pipeline (every schedule \<open>as\<close> of its
  steps) from the start of Structure, and every tree ID \<open>t\<close>: checkTree is called with
  \<open>t\<close> at most once, however often \<open>t\<close> occurs in the walk; and the counter of \<open>t\<close> has
  grown by exactly one for every job with the ID \<open>t\<close> that a checker received
  (\<open>walked\<close>), and by one for every occurrence of \<open>t\<close> as a content blob of a checked
  tree (\<open>counted\<close>). The jobs are the occurrences of \<open>t\<close> in the walk, and filterTrees
  appends the subtrees of a tree to the backlog every time a job of that tree comes back
  from a loader (line 455), whether or not the tree has been checked before: once the walk
  is over (\<open>drained\<close>), the jobs with the ID \<open>t\<close> are as many as the occurrences of
  \<open>t\<close> among the snapshot roots plus, for every job of the walk, the occurrences of
  \<open>t\<close> among the subtrees of its tree. So the counter of a subtree that three snapshot
  roots name ends at 3; it counts the occurrences of \<open>t\<close> in the walk, which are more
  than the references to \<open>t\<close> in the repository when a tree that names \<open>t\<close> is itself
  shared (the second example below). The counter is a 64-bit word:
  the hypothesis \<open>nowrap\<close> says that fewer than \<open>2^64\<close> increments of the counter of
  \<open>t\<close> have taken place, so that it has not wrapped around to 0.
\<close>

theorem Structure_walks_each_tree_once:
  assumes run: "run lt as (Structure_init c trees) = Some p"
    and nowrap: "unat (refcount (blobRefs c) t) + count_list (walked p) t
                   + count_list (counted p) t < 2 ^ 64"
  shows "count_list (checked p) t \<le> 1
       \<and> counter t p =
           unat (refcount (blobRefs c) t) + count_list (walked p) t + count_list (counted p) t
       \<and> (drained p \<longrightarrow>
            count_list (walked p) t =
              count_list trees t + sum_list (map (children lt t) (walked p)))"
proof -
  let ?p0 = "Structure_init c trees"
  have init: "walked ?p0 = []" "counted ?p0 = []" "checked ?p0 = []" "checker_state ?p0 = c"
    by (simp_all add: Structure_init_def)
  have once: "count_list (checked p) t \<le> 1"
    using run_dedup [OF run init(1,2,3), of t] nowrap by (simp add: init)
  have "refcount (blobRefs (checker_state p)) t =
      refcount (blobRefs c) t + of_nat (count_list (walked p) t + count_list (counted p) t)"
    using run_counter [OF run init(1,2), of t] by (simp add: init)
  moreover have "unat (refcount (blobRefs c) t
        + of_nat (count_list (walked p) t + count_list (counted p) t)) =
      unat (refcount (blobRefs c) t) + (count_list (walked p) t + count_list (counted p) t)"
    using nowrap by (intro unat_add_of_nat) simp
  ultimately have cnt: "counter t p =
      unat (refcount (blobRefs c) t) + count_list (walked p) t + count_list (counted p) t"
    by (simp add: counter_def)
  have "count_list (walked p) t = count_list trees t + sum_list (map (children lt t) (walked p))"
    if r: "drained p"
  proof -
    have live: "panicked p = None" and d: "\<not> done_closed p"
      using r by (simp_all add: drained_def)
    from run_flow [OF run d live, of t]
    show ?thesis
      by (simp add: drained_flow [OF r run_jobs_ok [OF run] run_loads_ok [OF run]]
          sum_list_indicator)
  qed
  with once cnt show ?thesis by blast
qed

subsection \<open>Running to the return of Structure\<close>

lemma run_append:
  "run lt (as @ bs) p = (case run lt as p of None \<Rightarrow> None | Some q \<Rightarrow> run lt bs q)"
  by (induction as arbitrary: p) (auto split: option.splits)

lemma run_close_loaders:
  assumes "panicked p = None" "filter_returned p" "n \<le> defaultParallelism"
    "\<forall>i < n. loaders p i = LoaderRecv"
  shows "run lt (map LoaderClosed [0..<n]) p =
           Some (p\<lparr>loaders := (\<lambda>i. if i < n then LoaderReturned else loaders p i)\<rparr>)"
  using assms(3,4)
proof (induction n)
  case 0
  show ?case by simp
next
  case (Suc n)
  let ?q = "p\<lparr>loaders := (\<lambda>i. if i < n then LoaderReturned else loaders p i)\<rparr>"
  have q: "run lt (map LoaderClosed [0..<n]) p = Some ?q"
    using Suc by simp
  have "step lt (LoaderClosed n) ?q = Some (?q\<lparr>loaders := (loaders ?q)(n := LoaderReturned)\<rparr>)"
    using assms(1,2) Suc.prems by simp
  moreover have "?q\<lparr>loaders := (loaders ?q)(n := LoaderReturned)\<rparr> =
      p\<lparr>loaders := (\<lambda>i. if i < Suc n then LoaderReturned else loaders p i)\<rparr>"
    by (auto simp: fun_eq_iff less_Suc_eq)
  ultimately show ?case
    by (simp add: run_append q)
qed

lemma run_close_checkers:
  assumes "panicked p = None" "filter_returned p" "n \<le> defaultParallelism"
    "\<forall>k < n. checkers p k = CheckerRecv"
  shows "run lt (map CheckerClosed [0..<n]) p =
           Some (p\<lparr>checkers := (\<lambda>k. if k < n then CheckerReturned else checkers p k)\<rparr>)"
  using assms(3,4)
proof (induction n)
  case 0
  show ?case by simp
next
  case (Suc n)
  let ?q = "p\<lparr>checkers := (\<lambda>k. if k < n then CheckerReturned else checkers p k)\<rparr>"
  have q: "run lt (map CheckerClosed [0..<n]) p = Some ?q"
    using Suc by simp
  have "step lt (CheckerClosed n) ?q = Some (?q\<lparr>checkers := (checkers ?q)(n := CheckerReturned)\<rparr>)"
    using assms(1,2) Suc.prems by simp
  moreover have "?q\<lparr>checkers := (checkers ?q)(n := CheckerReturned)\<rparr> =
      p\<lparr>checkers := (\<lambda>k. if k < Suc n then CheckerReturned else checkers p k)\<rparr>"
    by (auto simp: fun_eq_iff less_Suc_eq)
  ultimately show ?case
    by (simp add: run_append q)
qed

text \<open>
  Once filterTrees has returned without a panic and every worker is waiting for input,
  the workers read their closed channels one after the other, and Structure returns.
\<close>

lemma run_close_all:
  assumes "panicked p = None" "filter_returned p"
    "\<forall>i. loaders p i = LoaderRecv" "\<forall>k. checkers p k = CheckerRecv"
  shows "\<exists>p'. run lt close_all p = Some p' \<and> Structure_returned p'
           \<and> checker_state p' = checker_state p \<and> done_closed p' = done_closed p
           \<and> walked p' = walked p \<and> checked p' = checked p \<and> counted p' = counted p"
proof -
  let ?q = "p\<lparr>loaders := (\<lambda>i. if i < defaultParallelism then LoaderReturned else loaders p i)\<rparr>"
  let ?r = "?q\<lparr>checkers := (\<lambda>k. if k < defaultParallelism then CheckerReturned else checkers ?q k)\<rparr>"
  have 1: "run lt (map LoaderClosed [0..<defaultParallelism]) p = Some ?q"
    using assms by (intro run_close_loaders) simp_all
  have 2: "run lt (map CheckerClosed [0..<defaultParallelism]) ?q = Some ?r"
    using assms by (intro run_close_checkers) simp_all
  have "run lt close_all p = Some ?r"
    by (simp add: close_all_def run_append 1 2)
  moreover have "Structure_returned ?r"
    using assms by (simp add: Structure_returned_def)
  ultimately show ?thesis by simp
qed

subsection \<open>The example walks\<close>

text \<open>
  In the first example the tree 9, shared by the three roots, has a content blob that is
  in no index. The walk is over although checker 0 holds the \<open>TreeError\<close> of the tree 9
  for ever; the tree 9 was checked once and its counter is 3.
\<close>

lemma example_walk_main:
  "\<exists>p. run example_lt example_walk (Structure_init example_walk_checker [1, 2, 3]) = Some p
     \<and> filter_returned p \<and> panicked p = None \<and> \<not> done_closed p
     \<and> checkers p 0 = CheckerSend \<lparr>te_ID = 9, Errors = [blob_error],
                                      te_frame = [var_id \<mapsto> 9, var_blobID \<mapsto> 21]\<rparr>
     \<and> (\<forall>k. k \<noteq> 0 \<longrightarrow> checkers p k = CheckerRecv)
     \<and> walked p = [1, 2, 3, 9, 9, 9] \<and> checked p = [1, 2, 3, 9] \<and> counted p = [20, 21]"
  by (simp add: example_walk_def Structure_init_def filter_head_def Let_def defaultParallelism_def
      example_lt_def example_walk_checker_def New_def Subtrees_def refcount_def incr_def
      checkBlob_def)

theorem Structure_walks_each_tree_once_witness:
  "\<exists>p. run example_lt example_walk (Structure_init example_walk_checker [1, 2, 3]) = Some p
     \<and> drained p
     \<and> checkers p 0 = CheckerSend \<lparr>te_ID = 9, Errors = [blob_error],
                                      te_frame = [var_id \<mapsto> 9, var_blobID \<mapsto> 21]\<rparr>
     \<and> walked p = [1, 2, 3, 9, 9, 9] \<and> checked p = [1, 2, 3, 9]
     \<and> count_list (checked p) 9 \<le> 1
     \<and> counter 9 p = 3
     \<and> count_list (walked p) 9 =
         count_list [1, 2, 3 :: ID] 9 + sum_list (map (children example_lt 9) (walked p))"
proof -
  let ?init = "Structure_init example_walk_checker [1, 2, 3]"
  from example_walk_main obtain p where p: "run example_lt example_walk ?init = Some p"
    "filter_returned p" "panicked p = None" "\<not> done_closed p"
    "checkers p 0 = CheckerSend \<lparr>te_ID = 9, Errors = [blob_error],
                                      te_frame = [var_id \<mapsto> 9, var_blobID \<mapsto> 21]\<rparr>"
    "\<forall>k. k \<noteq> 0 \<longrightarrow> checkers p k = CheckerRecv"
    "walked p = [1, 2, 3, 9, 9, 9]" "checked p = [1, 2, 3, 9]" "counted p = [20, 21]"
    by blast
  have "checker_hold (\<lambda>u. 1) (checkers p k) = 0" for k
    using p(5,6) by (cases "k = 0") simp_all
  with p(2,3,4) have dr: "drained p"
    by (simp add: drained_def)
  have nowrap: "unat (refcount (blobRefs example_walk_checker) 9) + count_list (walked p) 9
      + count_list (counted p) 9 < 2 ^ 64"
    by (simp add: p example_walk_checker_def refcount_def)
  have r0: "unat (refcount (blobRefs example_walk_checker) 9) = 0"
    by (simp add: example_walk_checker_def refcount_def)
  from Structure_walks_each_tree_once [OF p(1) nowrap] dr r0
  have "count_list (checked p) 9 \<le> 1"
    "counter 9 p = 3"
    "count_list (walked p) 9 =
       count_list [1, 2, 3 :: ID] 9 + sum_list (map (children example_lt 9) (walked p))"
    by (simp_all add: p)
  with p dr show ?thesis by blast
qed

lemma nested_walk_main:
  "\<exists>q. run nested_lt nested_walk (Structure_init nested_checker [1, 2, 3]) = Some q
     \<and> filter_returned q \<and> panicked q = None \<and> \<not> done_closed q
     \<and> (\<forall>i. loaders q i = LoaderRecv) \<and> (\<forall>k. checkers q k = CheckerRecv)
     \<and> walked q = [1, 2, 3, 9, 9, 9, 10, 10, 10] \<and> checked q = [1, 2, 3, 9, 10]
     \<and> counted q = [20]
     \<and> refcount (blobRefs (checker_state q)) 10 = 3"
  by (simp add: nested_walk_def Structure_init_def filter_head_def Let_def defaultParallelism_def
      nested_lt_def nested_checker_def New_def Subtrees_def refcount_def incr_def
      checkBlob_def)

text \<open>
  C1 as the claim states it, every reference to \<open>t\<close> counted exactly once, does not
  hold. In the second example nothing is wrong with the repository, Structure returns
  without being cancelled, and every tree is checked once. The tree 10 is not a snapshot
  root and is named by one tree only, the tree 9: there is one reference to it. Its
  counter ends at 3, because the tree 9 is loaded three times and filterTrees appends its
  subtree to the backlog each time.
\<close>

theorem nested_reference_counted_thrice:
  "map_option Structure_returned
      (run nested_lt (nested_walk @ close_all) (Structure_init nested_checker [1, 2, 3])) = Some True
   \<and> map_option done_closed
      (run nested_lt (nested_walk @ close_all) (Structure_init nested_checker [1, 2, 3])) = Some False
   \<and> map_option checked
      (run nested_lt (nested_walk @ close_all) (Structure_init nested_checker [1, 2, 3]))
        = Some [1, 2, 3, 9, 10]
   \<and> count_list [1, 2, 3 :: ID] 10 + sum_list (map (children nested_lt 10) [1, 2, 3, 9, 10]) = 1
   \<and> map_option (counter 10)
      (run nested_lt (nested_walk @ close_all) (Structure_init nested_checker [1, 2, 3])) = Some 3"
proof -
  let ?init = "Structure_init nested_checker [1, 2, 3]"
  from nested_walk_main obtain q where q: "run nested_lt nested_walk ?init = Some q"
    "filter_returned q" "panicked q = None" "\<not> done_closed q"
    "\<forall>i. loaders q i = LoaderRecv" "\<forall>k. checkers q k = CheckerRecv"
    "checked q = [1, 2, 3, 9, 10]" "refcount (blobRefs (checker_state q)) 10 = 3"
    by blast
  from run_close_all [OF q(3,2,5,6), of nested_lt] obtain p where
    p: "run nested_lt close_all q = Some p" "Structure_returned p"
      "done_closed p = done_closed q" "checker_state p = checker_state q"
      "checked p = checked q"
    by blast
  have run: "run nested_lt (nested_walk @ close_all) ?init = Some p"
    by (simp only: run_append q(1) p(1) option.case)
  have refs: "count_list [1, 2, 3 :: ID] 10
      + sum_list (map (children nested_lt 10) [1, 2, 3, 9, 10]) = 1"
    by (simp add: children_def subtrees_of_def nested_lt_def Subtrees_def)
  have "counter 10 p = 3"
    by (simp add: counter_def p(4) q(8))
  with run p q refs show ?thesis by simp
qed

lemma load_failure_panics:
  assumes "step lt (SendLoad i) p = Some q" "fst (lt (nextTreeID p)) = None"
    "step lt (RecvJob i) q = Some r"
  shows "panicked r = Some NilPointerDereference"
  using assms
  by (auto simp: Let_def split: if_splits loader.splits option.splits)

lemma panicked_not_returned: "panicked p \<noteq> None \<Longrightarrow> \<not> Structure_returned p"
  by (simp add: Structure_returned_def)

subsection \<open>Claim C2: a tree that fails to load\<close>

text \<open>
  C2 says that a failure of LoadTree does not crash the run, and that the pipeline goes
  on to process the rest of the backlog. In the code the job of the failed load carries
  the error and a nil tree; filterTrees does not look at the error and calls
  \<open>j.Tree.Subtrees()\<close> (line 455), which dereferences the nil pointer (lemma
  \<open>load_failure_panics\<close>: this holds in every state and for every loader). Were the job
  to reach a checker, checkTree would range over \<open>tree.Nodes\<close> of the nil tree (line
  507, see \<open>checkTree\<close>). Below, the single snapshot root 5 fails to load: after the load
  and the receipt of its job the program has panicked, before any tree was walked or
  checked, and no step can be taken any more (a panicked run never returns: lemma
  \<open>panicked_not_returned\<close>).
\<close>

theorem Structure_load_failure_panics:
  "\<exists>p. run failing_lt [SendLoad 0, RecvJob 0] (Structure_init New [5]) = Some p
     \<and> panicked p = Some NilPointerDereference
     \<and> backlog p = [] \<and> walked p = [] \<and> checked p = []
     \<and> (\<forall>a. step failing_lt a p = None)"
proof -
  have "\<exists>p. run failing_lt [SendLoad 0, RecvJob 0] (Structure_init New [5]) = Some p
     \<and> panicked p = Some NilPointerDereference
     \<and> backlog p = [] \<and> walked p = [] \<and> checked p = []"
    by (simp add: Structure_init_def filter_head_def Let_def defaultParallelism_def
        failing_lt_def New_def)
  moreover have "step lt a p = None" if "panicked p = Some NilPointerDereference" for lt a p
    using that by (cases a) simp_all
  ultimately show ?thesis by blast
qed

section \<open>Properties of Packs\<close>

lemma packs_step_cases:
  assumes "packs_step test a s = Some s'"
  obtains
    (Feed) k i rest where "a = Feed k" "feed s = i # rest" "main s = Feeding"
      "k < defaultParallelism" "testers s k = TesterRecv"
      "s' = s\<lparr>feed := rest, seenPacks := insert i (seenPacks s), probed := probed s @ [i],
               testers := (testers s)
                 (k := case testPack test i of None \<Rightarrow> TesterRecv | Some err \<Rightarrow> TesterSend err)\<rparr>"
  | (CloseIDChan) "a = CloseIDChan" "main s = Feeding" "feed s = []" "s' = s\<lparr>main := Joining\<rparr>"
  | (TesterEmit) k err where "a = TesterEmit k" "k < defaultParallelism"
      "testers s k = TesterSend err"
      "s' = s\<lparr>sink := sink s @ [err], testers := (testers s)(k := TesterRecv)\<rparr>"
  | (TesterCancelled) k err where "a = TesterCancelled k" "k < defaultParallelism" "pk_done s"
      "testers s k = TesterSend err" "s' = s\<lparr>testers := (testers s)(k := TesterReturned)\<rparr>"
  | (TesterClosed) k where "a = TesterClosed k" "k < defaultParallelism" "main s \<noteq> Feeding"
      "testers s k = TesterRecv" "s' = s\<lparr>testers := (testers s)(k := TesterReturned)\<rparr>"
  | (Join) "a = Join" "main s = Joining"
      "\<forall>k < defaultParallelism. testers s k = TesterReturned" "s' = s\<lparr>main := Listing\<rparr>"
  | (ListSeen) i rest where "a = ListNext" "listing s = i # rest" "main s = Listing"
      "i \<in> seenPacks s" "s' = s\<lparr>listing := rest\<rparr>"
  | (ListOrphan) i rest where "a = ListNext" "listing s = i # rest" "main s = Listing"
      "i \<notin> seenPacks s"
      "s' = s\<lparr>listing := rest,
               pk_checker := (pk_checker s)
                 \<lparr>orphanedPacks := orphanedPacks (pk_checker s) @ [i]\<rparr>,
               main := Sending (orphan_error i)\<rparr>"
  | (ListEnd) "a = ListEnd" "main s = Listing" "listing s = [] \<or> pk_done s"
      "s' = s\<lparr>main := Returned\<rparr>"
  | (MainEmit) err where "a = MainEmit" "main s = Sending err"
      "s' = s\<lparr>sink := sink s @ [err], main := Listing\<rparr>"
  | (MainCancelled) err where "a = MainCancelled" "main s = Sending err" "pk_done s"
      "s' = s\<lparr>main := Returned\<rparr>"
  | (CancelPacks) "a = CancelPacks" "\<not> pk_done s" "s' = s\<lparr>pk_done := True\<rparr>"
proof (cases a)
  case (Feed k)
  with assms that(1) show ?thesis by (auto split: list.splits if_splits)
next
  case CloseIDChan
  with assms that(2) show ?thesis by (auto split: if_splits)
next
  case (TesterEmit k)
  with assms that(3) show ?thesis by (auto split: if_splits tester.splits)
next
  case (TesterCancelled k)
  with assms that(4) show ?thesis by (auto split: if_splits tester.splits)
next
  case (TesterClosed k)
  with assms that(5) show ?thesis by (auto split: if_splits)
next
  case Join
  with assms that(6) show ?thesis by (auto split: if_splits)
next
  case ListNext
  with assms that(7,8) show ?thesis by (auto split: list.splits if_splits)
next
  case ListEnd
  with assms that(9) show ?thesis by (auto split: if_splits)
next
  case MainEmit
  with assms that(10) show ?thesis by (auto split: stage.splits)
next
  case MainCancelled
  with assms that(11) show ?thesis by (auto split: stage.splits if_splits)
next
  case CancelPacks
  with assms that(12) show ?thesis by (auto split: if_splits)
qed


lemma feed_inv_step:
  assumes "packs_step test a s = Some s'" "feed_inv ks s"
  shows "feed_inv ks s'"
  using assms(1)
proof (cases rule: packs_step_cases)
  case (TesterClosed k)
  with assms(2) show ?thesis by (auto simp: feed_inv_def)
next
  case (TesterCancelled k err)
  with assms(2) show ?thesis by (auto simp: feed_inv_def)
next
  case (TesterEmit k err)
  with assms(2) show ?thesis by (auto simp: feed_inv_def)
qed (use assms(2) in \<open>auto simp: feed_inv_def orphan_error_def\<close>)

lemma feed_inv_init: "feed_inv ks (Packs_init c ks ls)"
  by (simp add: feed_inv_def Packs_init_def)

lemma orphan_inv_init: "orphan_inv c ks ls (Packs_init c ks ls)"
  by (simp add: orphan_inv_def Packs_init_def on_offer_def)

lemma tester_inv_init: "tester_inv test (Packs_init c ks ls)"
  by (simp add: tester_inv_def Packs_init_def tested_def tester_hold_def)

lemma testPack_Some:
  assumes "testPack test i = Some e"
  shows "\<not> Orphaned e" and "pk_ID e = i"
  using assms by (auto simp: testPack_def split: prod.splits option.splits if_splits)

lemma orphan_inv_step:
  assumes "packs_step test a s = Some s'" "orphan_inv c ks ls s" "feed_inv ks s"
    "tester_inv test s"
  shows "orphan_inv c ks ls s'"
proof -
  from assms(2) obtain pre where pre: "ls = pre @ listing s"
    "pk_checker s = c\<lparr>orphanedPacks := orphanedPacks c @ filter (\<lambda>i. i \<notin> set ks) pre\<rparr>"
    "main s = Feeding \<or> main s = Joining \<longrightarrow> pre = []"
    "\<not> pk_done s \<longrightarrow> filter Orphaned (sink s) @ on_offer (main s) =
                map orphan_error (filter (\<lambda>i. i \<notin> set ks) pre)"
    "\<not> pk_done s \<and> main s = Returned \<longrightarrow> listing s = []"
    unfolding orphan_inv_def by blast
  have seen: "seenPacks s = set ks" if "main s = Listing"
    using assms(3) that by (auto simp: feed_inv_def)
  from assms(1) show ?thesis
  proof (cases rule: packs_step_cases)
    case (Feed k i rest)
    with pre show ?thesis
      unfolding orphan_inv_def by (intro exI [of _ pre]) (auto simp: on_offer_def)
  next
    case CloseIDChan
    with pre show ?thesis
      unfolding orphan_inv_def by (intro exI [of _ pre]) (auto simp: on_offer_def)
  next
    case (TesterEmit k err)
    have "testPack test (pk_ID err) = Some err"
      using assms(4) TesterEmit(3) unfolding tester_inv_def by blast
    then have "\<not> Orphaned err"
      by (rule testPack_Some(1))
    with TesterEmit pre show ?thesis
      unfolding orphan_inv_def by (intro exI [of _ pre]) (auto simp: on_offer_def)
  next
    case (TesterCancelled k err)
    with pre show ?thesis
      unfolding orphan_inv_def by (intro exI [of _ pre]) (auto simp: on_offer_def)
  next
    case (TesterClosed k)
    with pre show ?thesis
      unfolding orphan_inv_def by (intro exI [of _ pre]) (auto simp: on_offer_def)
  next
    case Join
    with pre show ?thesis
      unfolding orphan_inv_def by (intro exI [of _ pre]) (auto simp: on_offer_def)
  next
    case (ListSeen i rest)
    with pre seen show ?thesis
      unfolding orphan_inv_def by (intro exI [of _ "pre @ [i]"]) (auto simp: on_offer_def)
  next
    case (ListOrphan i rest)
    with pre seen show ?thesis
      unfolding orphan_inv_def by (intro exI [of _ "pre @ [i]"]) (auto simp: on_offer_def)
  next
    case ListEnd
    with pre show ?thesis
      unfolding orphan_inv_def by (intro exI [of _ pre]) (auto simp: on_offer_def)
  next
    case (MainEmit err)
    have "Orphaned err" if "\<not> pk_done s"
    proof -
      from pre(4) that MainEmit(2)
      have "filter Orphaned (sink s) @ [err] =
          map orphan_error (filter (\<lambda>i. i \<notin> set ks) pre)"
        by (simp add: on_offer_def)
      then have "set (filter Orphaned (sink s) @ [err]) =
          set (map orphan_error (filter (\<lambda>i. i \<notin> set ks) pre))"
        by (rule arg_cong)
      then have "err \<in> set (map orphan_error (filter (\<lambda>i. i \<notin> set ks) pre))"
        by auto
      then show ?thesis by (auto simp: orphan_error_def)
    qed
    with MainEmit pre show ?thesis
      unfolding orphan_inv_def by (intro exI [of _ pre]) (auto simp: on_offer_def)
  next
    case (MainCancelled err)
    with pre show ?thesis
      unfolding orphan_inv_def by (intro exI [of _ pre]) (auto simp: on_offer_def)
  next
    case CancelPacks
    with pre show ?thesis
      unfolding orphan_inv_def by (intro exI [of _ pre]) (auto simp: on_offer_def)
  qed
qed


lemma tester_hold_simps [simp]:
  "tester_hold p TesterRecv = 0"
  "tester_hold p (TesterSend e) = (if pk_ID e = p then 1 else 0)"
  "tester_hold p TesterReturned = 0"
  by (simp_all add: tester_hold_def)

lemma tested_append [simp]: "tested p (es @ fs) = tested p es @ tested p fs"
  by (simp add: tested_def)

lemma tester_inv_step:
  assumes "packs_step test a s = Some s'" "tester_inv test s" "feed_inv ks s" "distinct ks"
  shows "tester_inv test s'"
proof -
  from assms(2) have
    snk: "\<And>e. e \<in> set (sink s) \<Longrightarrow> \<not> Orphaned e \<Longrightarrow> testPack test (pk_ID e) = Some e"
    and hld: "\<And>k e. testers s k = TesterSend e \<Longrightarrow> testPack test (pk_ID e) = Some e"
    and cnt: "\<And>p. \<not> pk_done s \<Longrightarrow> length (tested p (sink s))
                   + (\<Sum>k < defaultParallelism. tester_hold p (testers s k))
                 = (if p \<in> set (probed s) \<and> testPack test p \<noteq> None then 1 else 0)"
    unfolding tester_inv_def by blast+
  from assms(1) show ?thesis
  proof (cases rule: packs_step_cases)
    case (Feed k i rest)
    let ?w = "case testPack test i of None \<Rightarrow> TesterRecv | Some err \<Rightarrow> TesterSend err"
    have new: "i \<notin> set (probed s)"
      using assms(3,4) Feed(2) by (auto simp: feed_inv_def)
    have h: "\<And>e. ?w = TesterSend e \<Longrightarrow> testPack test (pk_ID e) = Some e"
      using testPack_Some(2) [of test i] by (auto split: option.splits)
    have hw: "tester_hold p ?w = (if p = i \<and> testPack test p \<noteq> None then 1 else 0)" for p
      using testPack_Some(2) [of test i] by (auto split: option.splits)
    have "length (tested p (sink s'))
            + (\<Sum>k < defaultParallelism. tester_hold p (testers s' k))
          = (if p \<in> set (probed s') \<and> testPack test p \<noteq> None then 1 else 0)"
      if "\<not> pk_done s'" for p
    proof -
      have d: "\<not> pk_done s" using that Feed(6) by simp
      from sum_fun_upd [OF Feed(4), of "tester_hold p" "testers s" ?w] Feed(5)
      have S: "(\<Sum>k < defaultParallelism. tester_hold p (testers s' k))
          = (\<Sum>k < defaultParallelism. tester_hold p (testers s k))
            + (if p = i \<and> testPack test p \<noteq> None then 1 else 0)"
        by (simp add: Feed(6) hw)
      have L: "sink s' = sink s" and P: "set (probed s') = insert i (set (probed s))"
        by (simp_all add: Feed(6))
      from cnt [OF d, of p] new S show ?thesis
        unfolding L P by (cases "p = i") auto
    qed
    moreover have "\<And>e. e \<in> set (sink s') \<Longrightarrow> \<not> Orphaned e \<Longrightarrow> testPack test (pk_ID e) = Some e"
      using snk by (simp add: Feed(6))
    moreover have "\<And>k' e. testers s' k' = TesterSend e \<Longrightarrow> testPack test (pk_ID e) = Some e"
      using hld h by (auto simp: Feed(6) split: if_splits)
    ultimately show ?thesis unfolding tester_inv_def by blast
  next
    case CloseIDChan
    with assms(2) show ?thesis by (simp add: tester_inv_def)
  next
    case (TesterEmit k err)
    have e: "testPack test (pk_ID err) = Some err" using hld TesterEmit(3) by blast
    then have no: "\<not> Orphaned err" by (rule testPack_Some(1))
    have "length (tested p (sink s'))
            + (\<Sum>k < defaultParallelism. tester_hold p (testers s' k))
          = (if p \<in> set (probed s') \<and> testPack test p \<noteq> None then 1 else 0)"
      if "\<not> pk_done s'" for p
    proof -
      have d: "\<not> pk_done s" using that TesterEmit(4) by simp
      from sum_fun_upd [OF TesterEmit(2), of "tester_hold p" "testers s" TesterRecv] TesterEmit(3)
      have S: "(\<Sum>k < defaultParallelism. tester_hold p (testers s' k)) + (if pk_ID err = p then 1 else 0)
          = (\<Sum>k < defaultParallelism. tester_hold p (testers s k))"
        by (simp add: TesterEmit(4))
      have L: "length (tested p (sink s')) =
          length (tested p (sink s)) + (if pk_ID err = p then 1 else 0)"
        using no by (simp add: TesterEmit(4) tested_def)
      have P: "probed s' = probed s" by (simp add: TesterEmit(4))
      from cnt [OF d, of p] S L show ?thesis
        unfolding P by linarith
    qed
    moreover have "\<And>e. e \<in> set (sink s') \<Longrightarrow> \<not> Orphaned e \<Longrightarrow> testPack test (pk_ID e) = Some e"
      using snk e by (auto simp: TesterEmit(4))
    moreover have "\<And>k' e. testers s' k' = TesterSend e \<Longrightarrow> testPack test (pk_ID e) = Some e"
      using hld by (auto simp: TesterEmit(4) split: if_splits)
    ultimately show ?thesis unfolding tester_inv_def by blast
  next
    case (TesterCancelled k err)
    with snk hld show ?thesis by (auto simp: tester_inv_def split: if_splits)
  next
    case (TesterClosed k)
    have "length (tested p (sink s'))
            + (\<Sum>k < defaultParallelism. tester_hold p (testers s' k))
          = (if p \<in> set (probed s') \<and> testPack test p \<noteq> None then 1 else 0)"
      if "\<not> pk_done s'" for p
    proof -
      have d: "\<not> pk_done s" using that TesterClosed(5) by simp
      from sum_fun_upd [OF TesterClosed(2), of "tester_hold p" "testers s" TesterReturned]
        TesterClosed(4)
      have "(\<Sum>k < defaultParallelism. tester_hold p (testers s' k))
          = (\<Sum>k < defaultParallelism. tester_hold p (testers s k))"
        by (simp add: TesterClosed(5))
      with cnt [OF d, of p] show ?thesis
        by (simp add: TesterClosed(5))
    qed
    moreover have "\<And>e. e \<in> set (sink s') \<Longrightarrow> \<not> Orphaned e \<Longrightarrow> testPack test (pk_ID e) = Some e"
      using snk by (simp add: TesterClosed(5))
    moreover have "\<And>k' e. testers s' k' = TesterSend e \<Longrightarrow> testPack test (pk_ID e) = Some e"
      using hld by (auto simp: TesterClosed(5) split: if_splits)
    ultimately show ?thesis unfolding tester_inv_def by blast
  next
    case Join
    with assms(2) show ?thesis by (simp add: tester_inv_def)
  next
    case (ListSeen i rest)
    with assms(2) show ?thesis by (simp add: tester_inv_def)
  next
    case (ListOrphan i rest)
    with assms(2) show ?thesis by (simp add: tester_inv_def)
  next
    case ListEnd
    with assms(2) show ?thesis by (simp add: tester_inv_def)
  next
    case (MainEmit err)
    have "Orphaned err" using assms(3) MainEmit(2) by (simp add: feed_inv_def)
    with MainEmit assms(2) show ?thesis by (simp add: tester_inv_def tested_def)
  next
    case (MainCancelled err)
    with assms(2) show ?thesis by (simp add: tester_inv_def)
  next
    case CancelPacks
    with assms(2) show ?thesis by (simp add: tester_inv_def)
  qed
qed


lemma packs_run_snoc:
  "packs_run test (as @ [a]) s =
     (case packs_run test as s of None \<Rightarrow> None | Some q \<Rightarrow> packs_step test a q)"
  by (induction as arbitrary: s) (auto split: option.splits)

lemma packs_run_append:
  "packs_run test (as @ bs) s =
     (case packs_run test as s of None \<Rightarrow> None | Some q \<Rightarrow> packs_run test bs q)"
  by (induction as arbitrary: s) (auto split: option.splits)

lemma packs_run_inv:
  assumes "packs_run test as (Packs_init c ks ls) = Some s" "distinct ks"
  shows "feed_inv ks s \<and> orphan_inv c ks ls s \<and> tester_inv test s"
  using assms(1)
proof (induction as arbitrary: s rule: rev_induct)
  case Nil
  then have "s = Packs_init c ks ls" by simp
  then show ?case by (simp add: feed_inv_init orphan_inv_init tester_inv_init)
next
  case (snoc a as)
  then obtain q where q: "packs_run test as (Packs_init c ks ls) = Some q"
    and st: "packs_step test a q = Some s"
    by (auto simp: packs_run_snoc split: option.splits)
  from snoc.IH [OF q] have i: "feed_inv ks q" "orphan_inv c ks ls q" "tester_inv test q"
    by simp_all
  show ?case
    using feed_inv_step [OF st i(1)] orphan_inv_step [OF st i(2,1,3)]
      tester_inv_step [OF st i(3,1) assms(2)]
    by simp
qed

lemma count_list_map_orphan_error:
  "count_list (map orphan_error xs) (orphan_error p) = count_list xs p"
  by (induction xs) (auto simp: orphan_error_def)

lemma count_list_filter_Orphaned:
  "count_list es (orphan_error p) = count_list (filter Orphaned es) (orphan_error p)"
  by (induction es) (auto simp: orphan_error_def)

lemma count_list_distinct:
  "distinct xs \<Longrightarrow> x \<in> set xs \<Longrightarrow> count_list xs x = 1"
  by (induction xs) auto

lemma count_list_filter_notin:
  "p \<notin> S \<Longrightarrow> count_list (filter (\<lambda>i. i \<notin> S) xs) p = count_list xs p"
  by (induction xs) auto

subsection \<open>Claim C5: orphaned packs\<close>

text \<open>
  C5, for every run of Packs (every schedule of its steps) that has returned: the checker's
  \<open>packs\<close> are unchanged, and every pack ID that the run appended to \<open>orphanedPacks\<close> is
  not in \<open>packs\<close> and is in the Data listing of the backend. When the run was not
  cancelled (\<open>done\<close> was never closed), the appended IDs are exactly the IDs of the listing
  that are not in \<open>packs\<close>, in the order of the listing; the errors with \<open>Orphaned\<close> true
  that the caller received are exactly the errors \<open>not referenced in any index\<close> of these
  IDs, in the same order; so the caller received the orphan error of such an ID as often
  as the listing names the ID: exactly once, the names of a listing being distinct.
\<close>

theorem Packs_orphans:
  assumes run: "packs_run test as (Packs_init c ks ls) = Some s"
    and order: "range_order (packs c) ks"
    and completed: "main s = Returned"
  shows "packs (pk_checker s) = packs c
       \<and> (\<exists>new. OrphanedPacks (pk_checker s) = OrphanedPacks c @ new
             \<and> (\<forall>p \<in> set new. p \<notin> packs c \<and> p \<in> set ls)
             \<and> (\<not> pk_done s \<longrightarrow>
                   new = filter (\<lambda>i. i \<notin> packs c) ls
                   \<and> filter Orphaned (sink s) = map orphan_error new
                   \<and> (\<forall>p \<in> set new. count_list (sink s) (orphan_error p) = count_list ls p
                         \<and> (distinct ls \<longrightarrow> count_list (sink s) (orphan_error p) = 1))))"
proof -
  have d: "distinct ks" and k: "set ks = packs c"
    using order by (simp_all add: range_order_def)
  from packs_run_inv [OF run d] have "orphan_inv c ks ls s" by simp
  then obtain pre where pre: "ls = pre @ listing s"
    "pk_checker s = c\<lparr>orphanedPacks := orphanedPacks c @ filter (\<lambda>i. i \<notin> set ks) pre\<rparr>"
    "\<not> pk_done s \<longrightarrow> filter Orphaned (sink s) @ on_offer (main s) =
                map orphan_error (filter (\<lambda>i. i \<notin> set ks) pre)"
    "\<not> pk_done s \<and> main s = Returned \<longrightarrow> listing s = []"
    unfolding orphan_inv_def by blast
  let ?new = "filter (\<lambda>i. i \<notin> packs c) pre"
  have 1: "packs (pk_checker s) = packs c"
    by (simp add: pre(2))
  have 2: "OrphanedPacks (pk_checker s) = OrphanedPacks c @ ?new"
    by (simp add: pre(2) OrphanedPacks_def k)
  have 3: "\<forall>p \<in> set ?new. p \<notin> packs c \<and> p \<in> set ls"
    using pre(1) by auto
  have 4: "?new = filter (\<lambda>i. i \<notin> packs c) ls
      \<and> filter Orphaned (sink s) = map orphan_error ?new
      \<and> (\<forall>p \<in> set ?new. count_list (sink s) (orphan_error p) = count_list ls p
            \<and> (distinct ls \<longrightarrow> count_list (sink s) (orphan_error p) = 1))"
    if nd: "\<not> pk_done s"
  proof -
    from pre(4) nd completed have all: "pre = ls" using pre(1) by simp
    from pre(3) nd completed have f: "filter Orphaned (sink s) = map orphan_error ?new"
      by (simp add: on_offer_def k)
    have c1: "count_list (sink s) (orphan_error p) = count_list ls p" if "p \<in> set ?new" for p
    proof -
      from that have "p \<notin> packs c" by simp
      then show ?thesis
        using count_list_filter_Orphaned [of "sink s" p]
        by (simp add: f count_list_map_orphan_error all count_list_filter_notin)
    qed
    have c2: "count_list (sink s) (orphan_error p) = 1" if "p \<in> set ?new" "distinct ls" for p
    proof -
      from that have "p \<in> set ls" using all by simp
      with that(2) have "count_list ls p = 1"
        by (simp add: count_list_distinct)
      with c1 [OF that(1)] show ?thesis by simp
    qed
    from all f c1 c2 show ?thesis by blast
  qed
  from 1 2 3 4 show ?thesis by blast
qed


subsection \<open>Claim C6: the probe of every pack of the indexes\<close>

lemma singleton_list:
  assumes "length xs = 1" "\<forall>x \<in> set xs. x = v"
  shows "xs = [v]"
  using assms by (cases xs) auto

text \<open>
  C6, for every run of Packs that has returned and was not cancelled, and every pack
  \<open>p\<close> in \<open>packs\<close>: \<open>p\<close> was probed exactly once, and the errors for \<open>p\<close> that the
  caller received are: exactly one error wrapping the failure, with \<open>Orphaned\<close> false,
  when the probe failed; exactly one error \<open>does not exist\<close>, with \<open>Orphaned\<close> false, when
  the probe reported the pack absent; none when it reported the pack present.
\<close>

theorem Packs_probes:
  assumes run: "packs_run test as (Packs_init c ks ls) = Some s"
    and order: "range_order (packs c) ks"
    and completed: "main s = Returned"
    and not_cancelled: "\<not> pk_done s"
    and pack: "p \<in> packs c"
  shows "count_list (probed s) p = 1
       \<and> filter (\<lambda>e. pk_ID e = p) (sink s) =
           (case test p of
              (ok, Some err) \<Rightarrow> [\<lparr>pk_ID = p, Orphaned = False, pk_Err = err\<rparr>]
            | (ok, None) \<Rightarrow>
                if ok then []
                else [\<lparr>pk_ID = p, Orphaned = False, pk_Err = errorString ''does not exist''\<rparr>])"
proof -
  have d: "distinct ks" and k: "set ks = packs c"
    using order by (simp_all add: range_order_def)
  from packs_run_inv [OF run d]
  have fi: "feed_inv ks s" and oi: "orphan_inv c ks ls s" and ti: "tester_inv test s"
    by simp_all
  from fi completed have pr: "probed s = ks"
    and ret: "\<And>k. k < defaultParallelism \<Longrightarrow> testers s k = TesterReturned"
    by (auto simp: feed_inv_def)
  have 1: "count_list (probed s) p = 1"
    using pr d k pack by (simp add: count_list_distinct)
  from oi not_cancelled completed obtain pre where
    o: "filter Orphaned (sink s) = map orphan_error (filter (\<lambda>i. i \<notin> set ks) pre)"
    unfolding orphan_inv_def by (auto simp: on_offer_def)
  have no_orphan: "\<not> Orphaned e" if "e \<in> set (sink s)" "pk_ID e = p" for e
  proof
    assume "Orphaned e"
    with that(1) have "e \<in> set (filter Orphaned (sink s))" by simp
    then have "pk_ID e \<notin> set ks" unfolding o by (auto simp: orphan_error_def)
    with that(2) pack k show False by simp
  qed
  then have same: "filter (\<lambda>e. pk_ID e = p) (sink s) = tested p (sink s)"
    unfolding tested_def by (intro filter_cong) auto
  from ti not_cancelled
  have "length (tested p (sink s)) + (\<Sum>k < defaultParallelism. tester_hold p (testers s k))
      = (if p \<in> set (probed s) \<and> testPack test p \<noteq> None then 1 else 0)"
    unfolding tester_inv_def by blast
  moreover have "(\<Sum>k < defaultParallelism. tester_hold p (testers s k)) = 0"
    using ret by simp
  ultimately have len: "length (tested p (sink s)) = (if testPack test p \<noteq> None then 1 else 0)"
    using pr k pack by simp
  have el: "testPack test p = Some e" if "e \<in> set (tested p (sink s))" for e
    using ti that unfolding tester_inv_def tested_def by auto
  have t: "tested p (sink s) = (case testPack test p of None \<Rightarrow> [] | Some e \<Rightarrow> [e])"
  proof (cases "testPack test p")
    case None
    with len show ?thesis by simp
  next
    case (Some e)
    with len el have "length (tested p (sink s)) = 1" "\<forall>x \<in> set (tested p (sink s)). x = e"
      by auto
    then have "tested p (sink s) = [e]" by (rule singleton_list)
    with Some show ?thesis by simp
  qed
  have 2: "filter (\<lambda>e. pk_ID e = p) (sink s) =
           (case test p of
              (ok, Some err) \<Rightarrow> [\<lparr>pk_ID = p, Orphaned = False, pk_Err = err\<rparr>]
            | (ok, None) \<Rightarrow>
                if ok then []
                else [\<lparr>pk_ID = p, Orphaned = False, pk_Err = errorString ''does not exist''\<rparr>])"
    unfolding same t by (auto simp: testPack_def split: prod.splits option.splits)
  from 1 2 show ?thesis by simp
qed

lemma packs_close_testers:
  assumes "main s \<noteq> Feeding" "n \<le> defaultParallelism" "\<forall>k < n. testers s k = TesterRecv"
  shows "packs_run test (map TesterClosed [0..<n]) s =
           Some (s\<lparr>testers := (\<lambda>k. if k < n then TesterReturned else testers s k)\<rparr>)"
  using assms(2,3)
proof (induction n)
  case 0
  show ?case by simp
next
  case (Suc n)
  let ?q = "s\<lparr>testers := (\<lambda>k. if k < n then TesterReturned else testers s k)\<rparr>"
  have q: "packs_run test (map TesterClosed [0..<n]) s = Some ?q"
    using Suc by simp
  have "packs_step test (TesterClosed n) ?q =
      Some (?q\<lparr>testers := (testers ?q)(n := TesterReturned)\<rparr>)"
    using assms(1) Suc.prems by simp
  moreover have "?q\<lparr>testers := (testers ?q)(n := TesterReturned)\<rparr> =
      s\<lparr>testers := (\<lambda>k. if k < Suc n then TesterReturned else testers s k)\<rparr>"
    by (auto simp: fun_eq_iff less_Suc_eq)
  ultimately show ?case
    by (simp add: packs_run_append q)
qed

lemma example_packs_run:
  "packs_run example_test example_packs_schedule
     (Packs_init example_packs_checker [51, 50] [50, 60, 51]) = Some example_packs_final"
proof -
  let ?q = "\<lparr>feed = [], seenPacks = {50, 51}, testers = (\<lambda>k. TesterRecv),
      main = Joining, listing = [50, 60, 51],
      pk_checker = example_packs_checker,
      sink = [\<lparr>pk_ID = 51, Orphaned = False, pk_Err = errorString ''does not exist''\<rparr>],
      pk_done = False, probed = [51, 50]\<rparr>"
  let ?r = "?q\<lparr>testers := (\<lambda>k. if k < defaultParallelism then TesterReturned else testers ?q k)\<rparr>"
  have 1: "packs_run example_test [Feed 0, Feed 1, CloseIDChan, TesterEmit 0]
      (Packs_init example_packs_checker [51, 50] [50, 60, 51]) = Some ?q"
    by (auto simp: Packs_init_def defaultParallelism_def testPack_def example_test_def fun_eq_iff)
  have 2: "packs_run example_test (map TesterClosed [0..<defaultParallelism]) ?q = Some ?r"
    by (rule packs_close_testers) simp_all
  have 3: "packs_run example_test [Join, ListNext, ListNext, MainEmit, ListNext, ListEnd] ?r
      = Some example_packs_final"
    by (auto simp: example_packs_final_def example_packs_checker_def New_def fun_eq_iff)
  show ?thesis
    unfolding example_packs_schedule_def packs_run_append 1 2 option.case by (rule 3)
qed

theorem Packs_orphans_witness:
  "packs_run example_test example_packs_schedule
     (Packs_init example_packs_checker [51, 50] [50, 60, 51]) = Some example_packs_final
   \<and> range_order (packs example_packs_checker) [51, 50]
   \<and> main example_packs_final = Returned \<and> \<not> pk_done example_packs_final
   \<and> OrphanedPacks (pk_checker example_packs_final) = [60]
   \<and> 60 \<notin> packs example_packs_checker
   \<and> filter Orphaned (sink example_packs_final) = [orphan_error 60]
   \<and> count_list (sink example_packs_final) (orphan_error 60) = 1"
proof -
  have o: "range_order (packs example_packs_checker) [51, 50]"
    by (auto simp: range_order_def example_packs_checker_def)
  have m: "main example_packs_final = Returned" "\<not> pk_done example_packs_final"
    "OrphanedPacks (pk_checker example_packs_final) = [60]"
    "OrphanedPacks example_packs_checker = []"
    "60 \<notin> packs example_packs_checker"
    by (simp_all add: example_packs_final_def OrphanedPacks_def example_packs_checker_def New_def)
  from Packs_orphans [OF example_packs_run o m(1)] m(2)
  obtain new where n: "OrphanedPacks (pk_checker example_packs_final)
        = OrphanedPacks example_packs_checker @ new"
      "filter Orphaned (sink example_packs_final) = map orphan_error new"
      "\<forall>p \<in> set new. distinct [50, 60, 51 :: ID] \<longrightarrow>
          count_list (sink example_packs_final) (orphan_error p) = 1"
    by blast
  from n(1) m(3,4) have new: "new = [60]" by simp
  from n(2,3) new have "filter Orphaned (sink example_packs_final) = [orphan_error 60]"
    "count_list (sink example_packs_final) (orphan_error 60) = 1"
    by simp_all
  with example_packs_run o m show ?thesis by simp
qed

theorem Packs_probes_witness:
  "packs_run example_test example_packs_schedule
     (Packs_init example_packs_checker [51, 50] [50, 60, 51]) = Some example_packs_final
   \<and> range_order (packs example_packs_checker) [51, 50]
   \<and> main example_packs_final = Returned \<and> \<not> pk_done example_packs_final
   \<and> 51 \<in> packs example_packs_checker \<and> example_test 51 = (False, None)
   \<and> filter (\<lambda>e. pk_ID e = 51) (sink example_packs_final) =
       [\<lparr>pk_ID = 51, Orphaned = False, pk_Err = errorString ''does not exist''\<rparr>]
   \<and> 50 \<in> packs example_packs_checker \<and> example_test 50 = (True, None)
   \<and> filter (\<lambda>e. pk_ID e = 50) (sink example_packs_final) = []
   \<and> count_list (probed example_packs_final) 50 = 1"
proof -
  have o: "range_order (packs example_packs_checker) [51, 50]"
    by (auto simp: range_order_def example_packs_checker_def)
  have m: "main example_packs_final = Returned" "\<not> pk_done example_packs_final"
    by (simp_all add: example_packs_final_def)
  have p: "51 \<in> packs example_packs_checker" "50 \<in> packs example_packs_checker"
    by (simp_all add: example_packs_checker_def)
  have t: "example_test 51 = (False, None)" "example_test 50 = (True, None)"
    by (simp_all add: example_test_def)
  from Packs_probes [OF example_packs_run o m p(1)] Packs_probes [OF example_packs_run o m p(2)]
  have "filter (\<lambda>e. pk_ID e = 51) (sink example_packs_final) =
       [\<lparr>pk_ID = 51, Orphaned = False, pk_Err = errorString ''does not exist''\<rparr>]"
    "filter (\<lambda>e. pk_ID e = 50) (sink example_packs_final) = []"
    "count_list (probed example_packs_final) 50 = 1"
    by (simp_all add: t)
  with example_packs_run o m p t show ?thesis by simp
qed

end
